theory Spec2Isabelle
  imports Main
begin

section \<open>The LISP2 mark-compact collector: data model\<close>

text \<open>
  Addresses are natural numbers; \<open>0\<close> is \<open>NULL\<close>. Pointer arithmetic that would
  overflow is undefined in C and does not occur for heaps that fit an address space, so
  addresses are unbounded here. An \<open>Object\<close> is 32 bytes on an LP64 target (4 bytes of
  tag, 4 of padding, an 8-byte \<open>moveTo\<close>, a 16-byte union).
\<close>

type_synonym addr = nat

definition STACK_MAX :: nat where "STACK_MAX = 256"
definition HEAP_SIZE :: nat where "HEAP_SIZE = 1024 * 1024"
definition HEAP_MIN :: nat where "HEAP_MIN = 16"
definition sizeof_Object :: nat where "sizeof_Object = 32"

datatype ObjectType = OBJ_INT | OBJ_PAIR

text \<open>
  The union of the source is kept as three separate fields: the code reads \<open>value\<close> only
  of a cell tagged \<open>OBJ_INT\<close> and \<open>head\<close>, \<open>tail\<close> only of a cell tagged \<open>OBJ_PAIR\<close>,
  each after the mutator has written that member.
\<close>

record Object =
  otype :: ObjectType
  moveTo :: addr
  ivalue :: int
  head :: addr
  tail :: addr

text \<open>
  Every way the C program stops: the three \<open>exit(1)\<close> paths, and undefined behaviour
  (an access outside the heap block or through a freed or null pointer, an array index
  out of range), which the code does not detect.
\<close>

datatype error = StackOverflow | StackUnderflow | OutOfMemory | UndefinedBehaviour

text \<open>
  The memory block behind \<open>vm->heap\<close> is a function from cell index to cell contents;
  only indices of cells that lie wholly inside the block may be accessed. What \<open>malloc\<close>
  leaves in fresh memory is indeterminate, so it is an argument wherever memory is obtained.
\<close>

type_synonym cells = "nat \<Rightarrow> Object"

definition valid_ref :: "addr \<Rightarrow> nat \<Rightarrow> addr \<Rightarrow> bool" where
  "valid_ref base sz p \<longleftrightarrow>
     p \<noteq> 0 \<and> base \<le> p \<and> (p - base) mod sizeof_Object = 0 \<and> (p - base) + sizeof_Object \<le> sz"

definition cell_index :: "addr \<Rightarrow> addr \<Rightarrow> nat" where
  "cell_index base p = (p - base) div sizeof_Object"

definition ncells :: "nat \<Rightarrow> nat" where
  "ncells sz = sz div sizeof_Object"

definition unmarked :: "nat \<Rightarrow> cells \<Rightarrow> nat set" where
  "unmarked sz m = {i. i < ncells sz \<and> moveTo (m i) = 0}"

subsection \<open>mark\<close>

text \<open>
  \<open>mark\<close> is the recursive function of the source. Besides the cells it threads a trace,
  which records every execution of the assignment \<open>object->moveTo = object\<close>; \<open>visit\<close>
  is that assignment.
\<close>

definition visit :: "addr \<Rightarrow> cells \<times> addr list \<Rightarrow> addr \<Rightarrow> cells \<times> addr list" where
  "visit base s object =
     ((fst s)(cell_index base object := (fst s (cell_index base object))\<lparr>moveTo := object\<rparr>),
      snd s @ [object])"

function mark :: "addr \<Rightarrow> nat \<Rightarrow> cells \<times> addr list \<Rightarrow> addr \<Rightarrow> error + (cells \<times> addr list)" where
  "mark base sz s object =
     (if \<not> valid_ref base sz object then Inl UndefinedBehaviour
      else if moveTo (fst s (cell_index base object)) \<noteq> 0 then Inr s
      else if otype (fst (visit base s object) (cell_index base object)) = OBJ_PAIR then
             (case mark base sz (visit base s object)
                     (head (fst (visit base s object) (cell_index base object))) of
                Inl e \<Rightarrow> Inl e
              | Inr s2 \<Rightarrow> mark base sz s2 (tail (fst s2 (cell_index base object))))
           else Inr (visit base s object))"
  by pat_completeness auto

lemma unmarked_visit:
  "valid_ref base sz object \<Longrightarrow> moveTo (fst s (cell_index base object)) = 0 \<Longrightarrow>
     unmarked sz (fst (visit base s object)) = unmarked sz (fst s) - {cell_index base object}"
  by (auto simp: unmarked_def visit_def valid_ref_def)

lemma valid_ref_index: "valid_ref base sz p \<Longrightarrow> cell_index base p < ncells sz"
  by (auto simp: valid_ref_def cell_index_def ncells_def sizeof_Object_def)

lemma mark_dom_unmarked:
  "mark_dom (base, sz, s, object) \<Longrightarrow> mark base sz s object = Inr s' \<Longrightarrow>
     unmarked sz (fst s') \<subseteq> unmarked sz (fst s)"
proof (induction base sz s object arbitrary: s' rule: mark.pinduct)
  case (1 base sz s object)
  obtain m' t' where s': "s' = (m', t')" by (cases s')
  show ?case
    using 1(4) unfolding s' apply (subst (asm) mark.psimps[OF 1(1)])
    apply (simp only: split: if_splits sum.splits)
    using 1(2) 1(3) unmarked_visit[of base sz object s] apply auto
    by blast
qed

lemma finite_unmarked: "finite (unmarked sz m)"
  by (simp add: unmarked_def)

termination mark
proof (relation "measure (\<lambda>(base, sz, s, object). card (unmarked sz (fst s)))", goal_cases)
  case 1
  show ?case by simp
next
  case (2 base sz s object)
  then have "unmarked sz (fst (visit base s object)) \<subset> unmarked sz (fst s)"
    using unmarked_visit[of base sz object s] valid_ref_index[of base sz object]
    by (auto simp: unmarked_def)
  then show ?case by (simp add: psubset_card_mono finite_unmarked)
next
  case (3 base sz s object s2)
  then have "unmarked sz (fst (visit base s object)) \<subset> unmarked sz (fst s)"
    using unmarked_visit[of base sz object s] valid_ref_index[of base sz object]
    by (auto simp: unmarked_def)
  moreover have "unmarked sz (fst s2) \<subseteq> unmarked sz (fst (visit base s object))"
    using mark_dom_unmarked 3 by blast
  ultimately have "unmarked sz (fst s2) \<subset> unmarked sz (fst s)" by blast
  then show ?case by (simp add: psubset_card_mono finite_unmarked)
qed

subsection \<open>The loops of the collector, on the heap block\<close>

text \<open>
  The heap walks and the root walks are written over the components of the VM they use:
  the base of the block, its size in bytes, the frontier \<open>next\<close> and the cells. An access
  to a cell that does not lie wholly inside the block is an error.
\<close>

fun markAll_loop :: "addr \<Rightarrow> nat \<Rightarrow> cells \<times> addr list \<Rightarrow> addr list \<Rightarrow> error + (cells \<times> addr list)" where
  "markAll_loop base sz s [] = Inr s"
| "markAll_loop base sz s (r # rs) =
     (case mark base sz s r of Inl e \<Rightarrow> Inl e | Inr s1 \<Rightarrow> markAll_loop base sz s1 rs)"

text \<open>
  Every heap walk of the source has the shape
  \<^verbatim>\<open>while (from < vm->next) { Object* object = (Object*)from; ...; from += sizeof(Object); }\<close>
  and every body begins by reading \<open>object->moveTo\<close>. \<open>walk\<close> is that loop; the body gets
  the loop state and the index of the cell at \<open>from\<close>.
\<close>

function walk :: "addr \<Rightarrow> nat \<Rightarrow> addr \<Rightarrow> ('s \<Rightarrow> nat \<Rightarrow> error + 's) \<Rightarrow> 's \<Rightarrow> addr \<Rightarrow> error + 's" where
  "walk base sz nxt body s from =
     (if from < nxt then
        (if \<not> valid_ref base sz from then Inl UndefinedBehaviour
         else case body s (cell_index base from) of
                Inl e \<Rightarrow> Inl e
              | Inr s1 \<Rightarrow> walk base sz nxt body s1 (from + sizeof_Object))
      else Inr s)"
  by pat_completeness auto
termination
  by (relation "measure (\<lambda>(base, sz, nxt, body, s, from). nxt - from)")
     (auto simp: sizeof_Object_def)

text \<open>The body of \<open>calculateNewLocations\<close>; the state is the cells and the cursor \<open>to\<close>.\<close>

definition calculateNewLocations_body :: "cells \<times> addr \<Rightarrow> nat \<Rightarrow> error + (cells \<times> addr)" where
  "calculateNewLocations_body s i =
     (let m = fst s; to = snd s in
      if moveTo (m i) \<noteq> 0
      then Inr (m(i := (m i)\<lparr>moveTo := to\<rparr>), to + sizeof_Object)
      else Inr (m, to))"

text \<open>\<open>vm->stack[i] = vm->stack[i]->moveTo\<close> for every root, in the fixed-heap variant.\<close>

fun updateStack :: "addr \<Rightarrow> nat \<Rightarrow> cells \<Rightarrow> addr list \<Rightarrow> error + addr list" where
  "updateStack base sz m [] = Inr []"
| "updateStack base sz m (r # rs) =
     (if \<not> valid_ref base sz r then Inl UndefinedBehaviour
      else case updateStack base sz m rs of
             Inl e \<Rightarrow> Inl e
           | Inr rs' \<Rightarrow> Inr (moveTo (m (cell_index base r)) # rs'))"

text \<open>The body of the heap walk of \<open>updateAllObjectPointers\<close>, fixed-heap variant.\<close>

definition updateFields_body :: "addr \<Rightarrow> nat \<Rightarrow> cells \<Rightarrow> nat \<Rightarrow> error + cells" where
  "updateFields_body base sz m i =
     (if moveTo (m i) \<noteq> 0 \<and> otype (m i) = OBJ_PAIR then
        (if \<not> valid_ref base sz (head (m i)) then Inl UndefinedBehaviour
         else let m1 = m(i := (m i)\<lparr>head := moveTo (m (cell_index base (head (m i))))\<rparr>) in
           if \<not> valid_ref base sz (tail (m1 i)) then Inl UndefinedBehaviour
           else Inr (m1(i := (m1 i)\<lparr>tail := moveTo (m1 (cell_index base (tail (m1 i))))\<rparr>)))
      else Inr m)"

text \<open>
  The body of the slide, fixed-heap variant. \<open>memmove\<close> copies the whole cell to
  \<open>moveTo\<close>, then the mark is cleared at the destination. A destination that is not a
  cell of the block is an error (the planned addresses are always cells).
\<close>

definition compact_body :: "addr \<Rightarrow> nat \<Rightarrow> cells \<Rightarrow> nat \<Rightarrow> error + cells" where
  "compact_body base sz m i =
     (if moveTo (m i) \<noteq> 0 then
        (let to = moveTo (m i) in
         if \<not> valid_ref base sz to then Inl UndefinedBehaviour
         else let j = cell_index base to;
                  m1 = m(j := m i)
              in Inr (m1(j := (m1 j)\<lparr>moveTo := 0\<rparr>)))
      else Inr m)"

section \<open>The fixed-heap variant (\<open>lisp2.c\<close>)\<close>

text \<open>
  The VM. \<open>stack\<close> holds the entries below \<open>stackSize\<close>, so \<open>stackSize\<close> is its length.
  \<open>mem\<close> and \<open>cap\<close> are the contents and the size in bytes of the block \<open>heap\<close> points
  to (no block when \<open>malloc\<close> returned \<open>NULL\<close>); \<open>out\<close> is what \<open>gc\<close> has printed, one
  entry of numbers for each line.
\<close>

record VM =
  stack :: "addr list"
  heap :: addr
  nextp :: addr
  mem :: cells
  cap :: nat
  out :: "nat list list"

definition newVM :: "addr \<Rightarrow> cells \<Rightarrow> VM" where
  "newVM base junk =
     \<lparr>stack = [], heap = base, nextp = base, mem = junk,
      cap = (if base = 0 then 0 else HEAP_SIZE), out = []\<rparr>"

definition push :: "VM \<Rightarrow> addr \<Rightarrow> error + VM" where
  "push vm v =
     (if length (stack vm) = STACK_MAX then Inl StackOverflow
      else Inr (vm\<lparr>stack := stack vm @ [v]\<rparr>))"

text \<open>
  \<open>pop\<close> of \<open>lisp2.c\<close> has no check: on an empty stack it decrements \<open>stackSize\<close> to
  \<open>-1\<close> and reads \<open>stack[-1]\<close>, outside the array.
\<close>

definition pop :: "VM \<Rightarrow> error + (VM \<times> addr)" where
  "pop vm =
     (if stack vm = [] then Inl UndefinedBehaviour
      else Inr (vm\<lparr>stack := butlast (stack vm)\<rparr>, last (stack vm)))"

definition markAll :: "'a VM_scheme \<Rightarrow> error + 'a VM_scheme" where
  "markAll vm =
     (case markAll_loop (heap vm) (cap vm) (mem vm, []) (stack vm) of
        Inl e \<Rightarrow> Inl e
      | Inr s \<Rightarrow> Inr (vm\<lparr>mem := fst s\<rparr>))"

definition calculateNewLocations :: "VM \<Rightarrow> error + (VM \<times> addr)" where
  "calculateNewLocations vm =
     (case walk (heap vm) (cap vm) (nextp vm) calculateNewLocations_body (mem vm, heap vm) (heap vm) of
        Inl e \<Rightarrow> Inl e
      | Inr (m, to) \<Rightarrow> Inr (vm\<lparr>mem := m\<rparr>, to))"

definition updateAllObjectPointers :: "VM \<Rightarrow> error + VM" where
  "updateAllObjectPointers vm =
     (case updateStack (heap vm) (cap vm) (mem vm) (stack vm) of
        Inl e \<Rightarrow> Inl e
      | Inr st \<Rightarrow>
         (case walk (heap vm) (cap vm) (nextp vm) (updateFields_body (heap vm) (cap vm)) (mem vm) (heap vm) of
            Inl e \<Rightarrow> Inl e
          | Inr m \<Rightarrow> Inr (vm\<lparr>stack := st, mem := m\<rparr>)))"

definition compact :: "VM \<Rightarrow> error + VM" where
  "compact vm =
     (case walk (heap vm) (cap vm) (nextp vm) (compact_body (heap vm) (cap vm)) (mem vm) (heap vm) of
        Inl e \<Rightarrow> Inl e
      | Inr m \<Rightarrow> Inr (vm\<lparr>mem := m\<rparr>))"

definition gc :: "VM \<Rightarrow> error + VM" where
  "gc vm =
     (case markAll vm of Inl e \<Rightarrow> Inl e | Inr vm1 \<Rightarrow>
      case calculateNewLocations vm1 of Inl e \<Rightarrow> Inl e | Inr (vm2, end) \<Rightarrow>
      case updateAllObjectPointers vm2 of Inl e \<Rightarrow> Inl e | Inr vm3 \<Rightarrow>
      case compact vm3 of Inl e \<Rightarrow> Inl e | Inr vm4 \<Rightarrow>
        Inr (vm4\<lparr>nextp := end, out := out vm4 @ [[end - heap vm4]]\<rparr>))"

text \<open>The tail of \<open>newObject\<close>, common to both variants: bump, then set tag and mark.\<close>

definition bump :: "'a VM_scheme \<Rightarrow> ObjectType \<Rightarrow> error + ('a VM_scheme \<times> addr)" where
  "bump vm ty =
     (let object = nextp vm in
      if \<not> valid_ref (heap vm) (cap vm) object then Inl UndefinedBehaviour
      else let i = cell_index (heap vm) object in
        Inr (vm\<lparr>nextp := nextp vm + sizeof_Object,
                 mem := (mem vm)(i := (mem vm i)\<lparr>otype := ty, moveTo := 0\<rparr>)\<rparr>, object))"

definition newObject :: "VM \<Rightarrow> ObjectType \<Rightarrow> error + (VM \<times> addr)" where
  "newObject vm ty =
     (if nextp vm + sizeof_Object > heap vm + HEAP_SIZE then
        (case gc vm of
           Inl e \<Rightarrow> Inl e
         | Inr vm1 \<Rightarrow>
             if nextp vm1 + sizeof_Object > heap vm1 + HEAP_SIZE then Inl OutOfMemory
             else bump vm1 ty)
      else bump vm ty)"

text \<open>Writes of the mutator to a cell it holds: \<open>object->value = v\<close> and the like.\<close>

definition set_value :: "'a VM_scheme \<Rightarrow> addr \<Rightarrow> int \<Rightarrow> error + 'a VM_scheme" where
  "set_value vm object v =
     (if \<not> valid_ref (heap vm) (cap vm) object then Inl UndefinedBehaviour
      else let i = cell_index (heap vm) object in
        Inr (vm\<lparr>mem := (mem vm)(i := (mem vm i)\<lparr>ivalue := v\<rparr>)\<rparr>))"

definition set_head :: "'a VM_scheme \<Rightarrow> addr \<Rightarrow> addr \<Rightarrow> error + 'a VM_scheme" where
  "set_head vm object v =
     (if \<not> valid_ref (heap vm) (cap vm) object then Inl UndefinedBehaviour
      else let i = cell_index (heap vm) object in
        Inr (vm\<lparr>mem := (mem vm)(i := (mem vm i)\<lparr>head := v\<rparr>)\<rparr>))"

definition set_tail :: "'a VM_scheme \<Rightarrow> addr \<Rightarrow> addr \<Rightarrow> error + 'a VM_scheme" where
  "set_tail vm object v =
     (if \<not> valid_ref (heap vm) (cap vm) object then Inl UndefinedBehaviour
      else let i = cell_index (heap vm) object in
        Inr (vm\<lparr>mem := (mem vm)(i := (mem vm i)\<lparr>tail := v\<rparr>)\<rparr>))"

definition pushInt :: "VM \<Rightarrow> int \<Rightarrow> error + VM" where
  "pushInt vm intValue =
     (case newObject vm OBJ_INT of Inl e \<Rightarrow> Inl e | Inr (vm1, object) \<Rightarrow>
      case set_value vm1 object intValue of Inl e \<Rightarrow> Inl e | Inr vm2 \<Rightarrow>
        push vm2 object)"

definition pushPair :: "VM \<Rightarrow> error + (VM \<times> addr)" where
  "pushPair vm =
     (case newObject vm OBJ_PAIR of Inl e \<Rightarrow> Inl e | Inr (vm1, object) \<Rightarrow>
      case pop vm1 of Inl e \<Rightarrow> Inl e | Inr (vm2, t) \<Rightarrow>
      case set_tail vm2 object t of Inl e \<Rightarrow> Inl e | Inr vm3 \<Rightarrow>
      case pop vm3 of Inl e \<Rightarrow> Inl e | Inr (vm4, h) \<Rightarrow>
      case set_head vm4 object h of Inl e \<Rightarrow> Inl e | Inr vm5 \<Rightarrow>
      case push vm5 object of Inl e \<Rightarrow> Inl e | Inr vm6 \<Rightarrow> Inr (vm6, object))"

definition liveCount :: "'a VM_scheme \<Rightarrow> nat" where
  "liveCount vm = (nextp vm - heap vm) div sizeof_Object"

section \<open>The reallocating variant (\<open>lisp2-reallocate.c\<close>)\<close>

record VMr = VM +
  endp :: addr

definition newVMr :: "addr \<Rightarrow> cells \<Rightarrow> VMr" where
  "newVMr base junk =
     \<lparr>stack = [], heap = base, nextp = base, mem = junk,
      cap = (if base = 0 then 0 else HEAP_MIN), out = [], endp = base + HEAP_MIN\<rparr>"

definition push_r :: "VMr \<Rightarrow> addr \<Rightarrow> error + VMr" where
  "push_r vm v =
     (if \<not> length (stack vm) < STACK_MAX then Inl StackOverflow
      else Inr (vm\<lparr>stack := stack vm @ [v]\<rparr>))"

definition pop_r :: "VMr \<Rightarrow> error + (VMr \<times> addr)" where
  "pop_r vm =
     (if \<not> length (stack vm) > 0 then Inl StackUnderflow
      else Inr (vm\<lparr>stack := butlast (stack vm)\<rparr>, last (stack vm)))"

definition calculateNewLocations_r :: "VMr \<Rightarrow> error + (VMr \<times> nat)" where
  "calculateNewLocations_r vm =
     (case walk (heap vm) (cap vm) (nextp vm) calculateNewLocations_body (mem vm, heap vm) (heap vm) of
        Inl e \<Rightarrow> Inl e
      | Inr (m, to) \<Rightarrow> Inr (vm\<lparr>mem := m\<rparr>, to - heap vm))"

text \<open>
  \<open>vm->heap + (p - oldHeap)\<close>. A \<open>p\<close> below \<open>oldHeap\<close> would form a pointer in front of
  the block, which is an error here.
\<close>

definition rebase :: "addr \<Rightarrow> addr \<Rightarrow> addr \<Rightarrow> error + addr" where
  "rebase hp oldHeap p = (if p < oldHeap then Inl UndefinedBehaviour else Inr (hp + (p - oldHeap)))"

text \<open>
  The body of the heap walk of \<open>updateAllObjectPointers\<close>. \<open>object->head->moveTo\<close>
  reads through the field as it stands, an address of the block before \<open>realloc\<close>.
\<close>

definition updateFields_body_r :: "addr \<Rightarrow> nat \<Rightarrow> addr \<Rightarrow> cells \<Rightarrow> nat \<Rightarrow> error + cells" where
  "updateFields_body_r base sz oldHeap m i =
     (if moveTo (m i) \<noteq> 0 then
        (case otype (m i) of
           OBJ_INT \<Rightarrow> Inr m
         | OBJ_PAIR \<Rightarrow>
            (if \<not> valid_ref base sz (head (m i)) then Inl UndefinedBehaviour
             else case rebase base oldHeap (moveTo (m (cell_index base (head (m i))))) of
               Inl e \<Rightarrow> Inl e
             | Inr h \<Rightarrow>
                let m1 = m(i := (m i)\<lparr>head := h\<rparr>) in
                if \<not> valid_ref base sz (tail (m1 i)) then Inl UndefinedBehaviour
                else case rebase base oldHeap (moveTo (m1 (cell_index base (tail (m1 i))))) of
                  Inl e \<Rightarrow> Inl e
                | Inr t \<Rightarrow> Inr (m1(i := (m1 i)\<lparr>tail := t\<rparr>))))
      else Inr m)"

text \<open>The root walk: the root is rebased into the new block before its \<open>moveTo\<close> is read.\<close>

fun updateStack_r :: "addr \<Rightarrow> nat \<Rightarrow> addr \<Rightarrow> cells \<Rightarrow> addr list \<Rightarrow> error + addr list" where
  "updateStack_r base sz oldHeap m [] = Inr []"
| "updateStack_r base sz oldHeap m (r # rs) =
     (case rebase base oldHeap r of Inl e \<Rightarrow> Inl e | Inr object \<Rightarrow>
      if \<not> valid_ref base sz object then Inl UndefinedBehaviour
      else case rebase base oldHeap (moveTo (m (cell_index base object))) of
        Inl e \<Rightarrow> Inl e
      | Inr r' \<Rightarrow>
         (case updateStack_r base sz oldHeap m rs of
            Inl e \<Rightarrow> Inl e
          | Inr rs' \<Rightarrow> Inr (r' # rs')))"

definition updateAllObjectPointers_r :: "VMr \<Rightarrow> addr \<Rightarrow> error + VMr" where
  "updateAllObjectPointers_r vm oldHeap =
     (case walk (heap vm) (cap vm) (nextp vm) (updateFields_body_r (heap vm) (cap vm) oldHeap) (mem vm) (heap vm) of
        Inl e \<Rightarrow> Inl e
      | Inr m \<Rightarrow>
         (case updateStack_r (heap vm) (cap vm) oldHeap m (stack vm) of
            Inl e \<Rightarrow> Inl e
          | Inr st \<Rightarrow> Inr (vm\<lparr>stack := st, mem := m\<rparr>)))"

definition compact_body_r :: "addr \<Rightarrow> nat \<Rightarrow> addr \<Rightarrow> cells \<Rightarrow> nat \<Rightarrow> error + cells" where
  "compact_body_r base sz oldHeap m i =
     (if moveTo (m i) \<noteq> 0 then
        (case rebase base oldHeap (moveTo (m i)) of
           Inl e \<Rightarrow> Inl e
         | Inr to \<Rightarrow>
            if \<not> valid_ref base sz to then Inl UndefinedBehaviour
            else let j = cell_index base to;
                     m1 = m(j := m i)
                 in Inr (m1(j := (m1 j)\<lparr>moveTo := 0\<rparr>)))
      else Inr m)"

definition compact_r :: "VMr \<Rightarrow> addr \<Rightarrow> error + VMr" where
  "compact_r vm oldHeap =
     (case walk (heap vm) (cap vm) (nextp vm) (compact_body_r (heap vm) (cap vm) oldHeap) (mem vm) (heap vm) of
        Inl e \<Rightarrow> Inl e
      | Inr m \<Rightarrow> Inr (vm\<lparr>mem := m\<rparr>))"

text \<open>
  \<open>size_t heapSize = liveSize * HEAP_HEADROOM + additionalSize\<close> is computed in \<open>double\<close>:
  both \<open>size_t\<close> operands are converted to \<open>double\<close>, the product with \<open>1.5\<close> and the
  sum are each rounded to a \<open>double\<close>, and the result is converted back to \<open>size_t\<close> by
  truncation, which is undefined when the value does not fit the 64 bits of \<open>size_t\<close>.
  A \<open>double\<close> is an IEEE 754 binary64 number, rounded to nearest with ties to even.
  Every value that occurs is a non-negative multiple of one half far below the largest
  \<open>double\<close>, so it is held as a natural number (the value, or twice the value where
  halves occur), and rounding keeps the 53 leading bits of that number.
\<close>

fun bit_length :: "nat \<Rightarrow> nat" where
  "bit_length n = (if n = 0 then 0 else Suc (bit_length (n div 2)))"

definition round_double :: "nat \<Rightarrow> nat" where
  "round_double n =
     (let e = bit_length n - 53;
          q = n div 2 ^ e;
          r = n mod 2 ^ e
      in if 2 * r < 2 ^ e \<or> (2 * r = 2 ^ e \<and> even q) then q * 2 ^ e else (q + 1) * 2 ^ e)"

text \<open>
  \<open>heapSize_of\<close> is the value of \<open>heapSize\<close> after the clamp to \<open>HEAP_MIN\<close>; \<open>product2\<close>
  and \<open>sum2\<close> are twice the product and twice the sum.
\<close>

definition heapSize_of :: "nat \<Rightarrow> nat \<Rightarrow> error + nat" where
  "heapSize_of liveSize additionalSize =
     (let product2 = round_double (3 * round_double liveSize);
          sum2 = round_double (product2 + 2 * round_double additionalSize);
          heapSize = sum2 div 2
      in if heapSize \<ge> 2 ^ 64 then Inl UndefinedBehaviour
         else Inr (if heapSize < HEAP_MIN then HEAP_MIN else heapSize))"

text \<open>
  \<open>realloc\<close>: the result is the address the allocator chose (\<open>0\<close> when it failed, which
  the code does not check) and the indeterminate contents of memory beyond the old block.
  The cells that lie wholly inside both the old and the new block keep their contents.
\<close>

definition realloc :: "VMr \<Rightarrow> nat \<Rightarrow> addr \<times> cells \<Rightarrow> VMr" where
  "realloc vm heapSize ra =
     (if fst ra = 0 then vm\<lparr>heap := 0, cap := 0\<rparr>
      else vm\<lparr>heap := fst ra,
              mem := (\<lambda>i. if i < ncells (min (cap vm) heapSize) then mem vm i else snd ra i),
              cap := heapSize\<rparr>)"

definition gc_r :: "VMr \<Rightarrow> nat \<Rightarrow> addr \<times> cells \<Rightarrow> error + VMr" where
  "gc_r vm additionalSize ra =
     (case markAll vm of Inl e \<Rightarrow> Inl e | Inr vm1 \<Rightarrow>
      case calculateNewLocations_r vm1 of Inl e \<Rightarrow> Inl e | Inr (vm2, liveSize) \<Rightarrow>
      case heapSize_of liveSize additionalSize of Inl e \<Rightarrow> Inl e | Inr heapSize \<Rightarrow>
      let oldHeap = heap vm2;
          vm3 = realloc vm2 heapSize ra;
          vm4 = vm3\<lparr>endp := heap vm3 + heapSize\<rparr>;
          vm5 = vm4\<lparr>nextp := heap vm4 + liveSize\<rparr>
      in
      case updateAllObjectPointers_r vm5 oldHeap of Inl e \<Rightarrow> Inl e | Inr vm6 \<Rightarrow>
      case compact_r vm6 oldHeap of Inl e \<Rightarrow> Inl e | Inr vm7 \<Rightarrow>
        Inr (vm7\<lparr>out := out vm7 @ [[nextp vm7 - heap vm7, endp vm7 - heap vm7]]\<rparr>))"

definition newObject_r :: "VMr \<Rightarrow> ObjectType \<Rightarrow> addr \<times> cells \<Rightarrow> error + (VMr \<times> addr)" where
  "newObject_r vm ty ra =
     (if nextp vm + sizeof_Object > endp vm then
        (case gc_r vm sizeof_Object ra of Inl e \<Rightarrow> Inl e | Inr vm1 \<Rightarrow> bump vm1 ty)
      else bump vm ty)"

definition pushInt_r :: "VMr \<Rightarrow> int \<Rightarrow> addr \<times> cells \<Rightarrow> error + VMr" where
  "pushInt_r vm intValue ra =
     (case newObject_r vm OBJ_INT ra of Inl e \<Rightarrow> Inl e | Inr (vm1, object) \<Rightarrow>
      case set_value vm1 object intValue of Inl e \<Rightarrow> Inl e | Inr vm2 \<Rightarrow>
        push_r vm2 object)"

definition pushPair_r :: "VMr \<Rightarrow> addr \<times> cells \<Rightarrow> error + (VMr \<times> addr)" where
  "pushPair_r vm ra =
     (case newObject_r vm OBJ_PAIR ra of Inl e \<Rightarrow> Inl e | Inr (vm1, object) \<Rightarrow>
      case pop_r vm1 of Inl e \<Rightarrow> Inl e | Inr (vm2, t) \<Rightarrow>
      case set_tail vm2 object t of Inl e \<Rightarrow> Inl e | Inr vm3 \<Rightarrow>
      case pop_r vm3 of Inl e \<Rightarrow> Inl e | Inr (vm4, h) \<Rightarrow>
      case set_head vm4 object h of Inl e \<Rightarrow> Inl e | Inr vm5 \<Rightarrow>
      case push_r vm5 object of Inl e \<Rightarrow> Inl e | Inr vm6 \<Rightarrow> Inr (vm6, object))"

text \<open>The test of \<open>newObject\<close> for "no room for one more cell", in each variant.\<close>

definition full :: "VM \<Rightarrow> bool" where
  "full vm \<longleftrightarrow> nextp vm + sizeof_Object > heap vm + HEAP_SIZE"

definition full_r :: "VMr \<Rightarrow> bool" where
  "full_r vm \<longleftrightarrow> nextp vm + sizeof_Object > endp vm"

section \<open>Mutator programs\<close>

text \<open>
  What a driver can do to a VM of the reallocating variant: the four exported operations.
  \<open>al\<close> is the allocator: for the state in which \<open>realloc\<close> is called it gives the
  address \<open>realloc\<close> returns and the contents of fresh memory.
\<close>

datatype mutop = PushInt int | PushPair | Pop | Gc nat

fun step_r :: "(VMr \<Rightarrow> addr \<times> cells) \<Rightarrow> VMr \<Rightarrow> mutop \<Rightarrow> error + VMr" where
  "step_r al vm (PushInt n) = pushInt_r vm n (al vm)"
| "step_r al vm PushPair = (case pushPair_r vm (al vm) of Inl e \<Rightarrow> Inl e | Inr (vm1, _) \<Rightarrow> Inr vm1)"
| "step_r al vm Pop = (case pop_r vm of Inl e \<Rightarrow> Inl e | Inr (vm1, _) \<Rightarrow> Inr vm1)"
| "step_r al vm (Gc n) = gc_r vm n (al vm)"

fun run_r :: "(VMr \<Rightarrow> addr \<times> cells) \<Rightarrow> VMr \<Rightarrow> mutop list \<Rightarrow> error + VMr" where
  "run_r al vm [] = Inr vm"
| "run_r al vm (x # xs) = (case step_r al vm x of Inl e \<Rightarrow> Inl e | Inr vm1 \<Rightarrow> run_r al vm1 xs)"

text \<open>
  The same programs on a VM of the fixed-heap variant, whose \<open>gc\<close> takes no size: the
  argument of \<open>Gc\<close> is ignored.
\<close>

fun step_f :: "VM \<Rightarrow> mutop \<Rightarrow> error + VM" where
  "step_f vm (PushInt n) = pushInt vm n"
| "step_f vm PushPair = (case pushPair vm of Inl e \<Rightarrow> Inl e | Inr (vm1, _) \<Rightarrow> Inr vm1)"
| "step_f vm Pop = (case pop vm of Inl e \<Rightarrow> Inl e | Inr (vm1, _) \<Rightarrow> Inr vm1)"
| "step_f vm (Gc n) = gc vm"

fun run_f :: "VM \<Rightarrow> mutop list \<Rightarrow> error + VM" where
  "run_f vm [] = Inr vm"
| "run_f vm (x # xs) = (case step_f vm x of Inl e \<Rightarrow> Inl e | Inr vm1 \<Rightarrow> run_f vm1 xs)"

text \<open>Fresh memory filled with zero bytes, and an allocator that always resizes in place.\<close>

definition junk0 :: cells where
  "junk0 = (\<lambda>_. \<lparr>otype = OBJ_INT, moveTo = 0, ivalue = 0, head = 0, tail = 0\<rparr>)"

definition inplace :: "VMr \<Rightarrow> addr \<times> cells" where
  "inplace vm = (heap vm, junk0)"

text \<open>
  Two states for examples: the reallocating VM after \<open>pushInt\<close> of 1, 2 and 3 (its
  heap of 128 bytes holds three cells), and a fixed-heap VM with room for exactly one
  more cell.
\<close>

definition three_ints :: VMr where
  "three_ints =
     \<lparr>stack = [4096, 4128, 4160], heap = 4096, nextp = 4192,
      mem = junk0(0 := \<lparr>otype = OBJ_INT, moveTo = 0, ivalue = 1, head = 0, tail = 0\<rparr>,
                  1 := \<lparr>otype = OBJ_INT, moveTo = 0, ivalue = 2, head = 0, tail = 0\<rparr>,
                  2 := \<lparr>otype = OBJ_INT, moveTo = 0, ivalue = 3, head = 0, tail = 0\<rparr>),
      cap = 128, out = [[0, 32], [32, 80], [64, 128]], endp = 4224\<rparr>"

definition nearly_full :: VM where
  "nearly_full =
     \<lparr>stack = [], heap = 4096, nextp = 4096 + 1048544, mem = junk0, cap = 1048576, out = []\<rparr>"

text \<open>
  Two full heaps of the fixed-heap variant, of 32768 cells each. In \<open>full_heap\<close> every
  cell is live: cell 0 is an integer, cells \<open>2k - 1\<close> and \<open>2k\<close> are an integer and the
  pair of the list so far and that integer (as \<open>pushInt\<close> then \<open>pushPair\<close> lay them
  out), the last cell is one more integer, and the roots are the last pair and the last
  integer. In \<open>garbage_heap\<close> nothing is rooted.
\<close>

definition list_cell :: "nat \<Rightarrow> Object" where
  "list_cell i =
     (if i = 0 \<or> odd i
      then \<lparr>otype = OBJ_INT, moveTo = 0, ivalue = int ((i + 1) div 2), head = 0, tail = 0\<rparr>
      else \<lparr>otype = OBJ_PAIR, moveTo = 0, ivalue = 0,
            head = 4096 + sizeof_Object * (i - 2), tail = 4096 + sizeof_Object * (i - 1)\<rparr>)"

definition full_heap :: VM where
  "full_heap =
     \<lparr>stack = [4096 + sizeof_Object * 32766, 4096 + sizeof_Object * 32767], heap = 4096,
      nextp = 4096 + HEAP_SIZE, mem = (\<lambda>i. if i < 32768 then list_cell i else junk0 i),
      cap = HEAP_SIZE, out = []\<rparr>"

definition garbage_heap :: VM where
  "garbage_heap =
     \<lparr>stack = [], heap = 4096, nextp = 4096 + HEAP_SIZE, mem = junk0, cap = HEAP_SIZE, out = []\<rparr>"

text \<open>
  The set-up of \<open>test4\<close> of \<open>lisp2-reallocate.c\<close>, up to its call of \<open>gc(vm, 0)\<close>: two
  pairs \<open>a\<close> and \<open>b\<close>, both on the stack, whose tails are then made to point at each
  other.
\<close>

definition seq :: "error + 'a \<Rightarrow> ('a \<Rightarrow> error + 'b) \<Rightarrow> error + 'b" where
  "seq r f = (case r of Inl e \<Rightarrow> Inl e | Inr x \<Rightarrow> f x)"

definition test4_setup :: "(VMr \<Rightarrow> addr \<times> cells) \<Rightarrow> VMr \<Rightarrow> error + VMr" where
  "test4_setup al vm =
     seq (pushInt_r vm 1 (al vm)) (\<lambda>vm.
     seq (pushInt_r vm 2 (al vm)) (\<lambda>vm.
     seq (pushPair_r vm (al vm)) (\<lambda>(vm, a).
     seq (pushInt_r vm 3 (al vm)) (\<lambda>vm.
     seq (pushInt_r vm 4 (al vm)) (\<lambda>vm.
     seq (pushPair_r vm (al vm)) (\<lambda>(vm, b).
     seq (set_tail vm a b) (\<lambda>vm.
     set_tail vm b a)))))))"

text \<open>
  Programs of pushes and pops only. After \<open>churn\<close> the heap of the reallocating VM holds
  four rooted integers, a dead one, and two more rooted integers; \<open>churn_more\<close> pushes
  once more (which collects) and pops twice.
\<close>

definition churn :: "mutop list" where
  "churn = [PushInt 1, PushInt 2, PushInt 3, PushInt 4, PushInt 5, Pop, PushInt 6, PushInt 7]"

definition churn_more :: "mutop list" where
  "churn_more = churn @ [PushInt 8, Pop, Pop]"

section \<open>Reachability\<close>

text \<open>The cells reachable from the roots: the roots, and head and tail of every reachable pair.\<close>

inductive_set reachable :: "addr \<Rightarrow> cells \<Rightarrow> addr list \<Rightarrow> addr set"
  for base :: addr and m :: cells and roots :: "addr list" where
  root: "r \<in> set roots \<Longrightarrow> r \<in> reachable base m roots"
| head: "p \<in> reachable base m roots \<Longrightarrow> otype (m (cell_index base p)) = OBJ_PAIR \<Longrightarrow>
           head (m (cell_index base p)) \<in> reachable base m roots"
| tail: "p \<in> reachable base m roots \<Longrightarrow> otype (m (cell_index base p)) = OBJ_PAIR \<Longrightarrow>
           tail (m (cell_index base p)) \<in> reachable base m roots"

section \<open>Describing a collection\<close>

text \<open>
  The number of cells a walk from \<open>base\<close> to \<open>nxt\<close> visits, and the number of marked
  cells below an index.
\<close>

definition scanned :: "addr \<Rightarrow> addr \<Rightarrow> nat" where
  "scanned base nxt = (nxt - base + (sizeof_Object - 1)) div sizeof_Object"

definition live_below :: "cells \<Rightarrow> nat \<Rightarrow> nat" where
  "live_below m k = card {j. j < k \<and> moveTo (m j) \<noteq> 0}"

text \<open>
  What \<open>calculateNewLocations\<close> leaves in the cells: every marked cell below \<open>n\<close> gets
  the address of the slot with its rank among the marked cells.
\<close>

definition planned :: "addr \<Rightarrow> cells \<Rightarrow> nat \<Rightarrow> cells" where
  "planned to0 m n =
     (\<lambda>i. if i < n \<and> moveTo (m i) \<noteq> 0
          then (m i)\<lparr>moveTo := to0 + sizeof_Object * live_below m i\<rparr> else m i)"

text \<open>
  The first half of \<open>gc\<close> of the reallocating variant, up to and with the assignments
  to \<open>vm->end\<close> and \<open>vm->next\<close>: it yields the state handed to
  \<open>updateAllObjectPointers\<close> and \<open>compact\<close>, and \<open>oldHeap\<close>.
\<close>

definition gc_r_prepare :: "VMr \<Rightarrow> nat \<Rightarrow> addr \<times> cells \<Rightarrow> error + (VMr \<times> addr)" where
  "gc_r_prepare vm additionalSize ra =
     (case markAll vm of Inl e \<Rightarrow> Inl e | Inr vm1 \<Rightarrow>
      case calculateNewLocations_r vm1 of Inl e \<Rightarrow> Inl e | Inr (vm2, liveSize) \<Rightarrow>
      case heapSize_of liveSize additionalSize of Inl e \<Rightarrow> Inl e | Inr heapSize \<Rightarrow>
      let oldHeap = heap vm2;
          vm3 = realloc vm2 heapSize ra;
          vm4 = vm3\<lparr>endp := heap vm3 + heapSize\<rparr>;
          vm5 = vm4\<lparr>nextp := heap vm4 + liveSize\<rparr>
      in Inr (vm5, oldHeap))"

text \<open>The addresses of the marked cells of the block, and memories that differ in marks only.\<close>

definition marked :: "addr \<Rightarrow> nat \<Rightarrow> cells \<Rightarrow> addr set" where
  "marked base sz m = {p. valid_ref base sz p \<and> moveTo (m (cell_index base p)) \<noteq> 0}"

definition same_graph :: "cells \<Rightarrow> cells \<Rightarrow> bool" where
  "same_graph m0 m \<longleftrightarrow>
     (\<forall>i. otype (m i) = otype (m0 i) \<and> head (m i) = head (m0 i) \<and> tail (m i) = tail (m0 i)
        \<and> ivalue (m i) = ivalue (m0 i))"

text \<open>
  \<open>marks base sz m ext m'\<close>: \<open>m'\<close> is \<open>m\<close> with exactly the cells at the addresses \<open>ext\<close>
  marked, each with its own address.
\<close>

definition marks :: "addr \<Rightarrow> nat \<Rightarrow> cells \<Rightarrow> addr list \<Rightarrow> cells \<Rightarrow> bool" where
  "marks base sz m ext m' \<longleftrightarrow>
     distinct ext \<and> (\<forall>a \<in> set ext. valid_ref base sz a)
     \<and> (\<forall>a \<in> set ext. m' (cell_index base a) = (m (cell_index base a))\<lparr>moveTo := a\<rparr>)
     \<and> (\<forall>i. i \<notin> cell_index base ` set ext \<longrightarrow> m' i = m i)"

text \<open>What one call of \<open>mark\<close> does, relative to the graph \<open>m0\<close> of the heap.\<close>

definition mark_good ::
  "addr \<Rightarrow> nat \<Rightarrow> cells \<Rightarrow> cells \<times> addr list \<Rightarrow> cells \<times> addr list \<Rightarrow> addr \<Rightarrow> addr list \<Rightarrow> bool" where
  "mark_good base sz m0 s s' p ext \<longleftrightarrow>
     snd s' = snd s @ ext \<and> marks base sz (fst s) ext (fst s')
     \<and> p \<in> marked base sz (fst s')
     \<and> set ext \<inter> marked base sz (fst s) = {}
     \<and> set ext \<subseteq> reachable base m0 [p]
     \<and> (\<forall>a \<in> set ext. otype (m0 (cell_index base a)) = OBJ_PAIR \<longrightarrow>
           head (m0 (cell_index base a)) \<in> marked base sz (fst s')
           \<and> tail (m0 (cell_index base a)) \<in> marked base sz (fst s'))"

text \<open>The invariant of the loop of \<open>markAll\<close>, for the cells \<open>R\<close> reachable from all roots.\<close>

definition mark_inv :: "addr \<Rightarrow> nat \<Rightarrow> cells \<Rightarrow> addr set \<Rightarrow> cells \<times> addr list \<Rightarrow> bool" where
  "mark_inv base sz m0 R s \<longleftrightarrow>
     marks base sz m0 (snd s) (fst s) \<and> set (snd s) \<subseteq> R
     \<and> marked base sz (fst s) \<inter> R = set (snd s)
     \<and> (\<forall>a \<in> set (snd s). otype (m0 (cell_index base a)) = OBJ_PAIR \<longrightarrow>
           head (m0 (cell_index base a)) \<in> set (snd s) \<and> tail (m0 (cell_index base a)) \<in> set (snd s))"

text \<open>
  A VM outside a collection, as \<open>newVM\<close>, \<open>pushInt\<close>, \<open>pushPair\<close>, \<open>pop\<close> and \<open>gc\<close> of
  the fixed-heap variant leave it: the frontier is a whole number of cells above the
  base and inside the block, no allocated cell is marked, and every root and every field
  of an allocated pair is the address of an allocated cell.
\<close>

definition in_heap :: "'a VM_scheme \<Rightarrow> addr \<Rightarrow> bool" where
  "in_heap vm p \<longleftrightarrow> valid_ref (heap vm) (cap vm) p \<and> p < nextp vm"

definition wf_vm :: "'a VM_scheme \<Rightarrow> bool" where
  "wf_vm vm \<longleftrightarrow>
     heap vm \<noteq> 0
     \<and> nextp vm = heap vm + sizeof_Object * scanned (heap vm) (nextp vm)
     \<and> scanned (heap vm) (nextp vm) \<le> ncells (cap vm)
     \<and> (\<forall>i < scanned (heap vm) (nextp vm). moveTo (mem vm i) = 0)
     \<and> (\<forall>r \<in> set (stack vm). in_heap vm r)
     \<and> (\<forall>i < scanned (heap vm) (nextp vm). otype (mem vm i) = OBJ_PAIR \<longrightarrow>
           in_heap vm (head (mem vm i)) \<and> in_heap vm (tail (mem vm i)))"

text \<open>
  The address a reachable cell is moved to by a sliding collection (its rank among the
  reachable cells), the contents it has there, and what a collection of the fixed-heap
  variant has to establish.
\<close>

definition forward :: "'a VM_scheme \<Rightarrow> addr \<Rightarrow> addr" where
  "forward vm p =
     heap vm + sizeof_Object * card {q \<in> reachable (heap vm) (mem vm) (stack vm). q < p}"

definition relocate :: "(addr \<Rightarrow> addr) \<Rightarrow> Object \<Rightarrow> Object" where
  "relocate f c =
     (if otype c = OBJ_PAIR then c\<lparr>moveTo := 0, head := f (head c), tail := f (tail c)\<rparr>
      else c\<lparr>moveTo := 0\<rparr>)"

definition gc_post :: "VM \<Rightarrow> VM \<Rightarrow> bool" where
  "gc_post vm vm' \<longleftrightarrow>
     heap vm' = heap vm \<and> cap vm' = cap vm
     \<and> nextp vm' = heap vm + sizeof_Object * card (reachable (heap vm) (mem vm) (stack vm))
     \<and> stack vm' = map (forward vm) (stack vm)
     \<and> (\<forall>p \<in> reachable (heap vm) (mem vm) (stack vm).
           mem vm' (cell_index (heap vm) (forward vm p))
             = relocate (forward vm) (mem vm (cell_index (heap vm) p)))
     \<and> (\<forall>i \<ge> scanned (heap vm) (nextp vm). mem vm' i = mem vm i)
     \<and> out vm' = out vm @ [[sizeof_Object * card (reachable (heap vm) (mem vm) (stack vm))]]"

text \<open>What the heap walk of \<open>updateAllObjectPointers\<close> computes on the first \<open>k\<close> cells.\<close>

definition fields_fwd :: "addr \<Rightarrow> cells \<Rightarrow> nat \<Rightarrow> cells" where
  "fields_fwd base m k =
     (\<lambda>i. if i < k \<and> moveTo (m i) \<noteq> 0 \<and> otype (m i) = OBJ_PAIR
          then (m i)\<lparr>head := moveTo (m (cell_index base (head (m i)))),
                     tail := moveTo (m (cell_index base (tail (m i))))\<rparr>
          else m i)"

section \<open>Basic facts about the loops\<close>

declare walk.simps [simp del] mark.simps [simp del] bit_length.simps [simp del]

lemma walk_stop: "\<not> from < nxt \<Longrightarrow> walk base sz nxt body s from = Inr s"
  by (simp add: walk.simps)

lemma walk_step:
  "from < nxt \<Longrightarrow> valid_ref base sz from \<Longrightarrow> body s (cell_index base from) = Inr s1 \<Longrightarrow>
     walk base sz nxt body s from = walk base sz nxt body s1 (from + sizeof_Object)"
  by (subst walk.simps) simp

lemma walk_Inr_cases:
  assumes "walk base sz nxt body s from = Inr s'"
  obtains (stop) "\<not> from < nxt" "s' = s"
  | (step) s1 where "from < nxt" "valid_ref base sz from"
      "body s (cell_index base from) = Inr s1"
      "walk base sz nxt body s1 (from + sizeof_Object) = Inr s'"
  using assms by (subst (asm) walk.simps) (auto split: if_splits sum.splits)

lemma walk_Inl_cases:
  assumes "walk base sz nxt body s from = Inl e"
  obtains (invalid) "from < nxt" "\<not> valid_ref base sz from" "e = UndefinedBehaviour"
  | (body) "from < nxt" "valid_ref base sz from" "body s (cell_index base from) = Inl e"
  | (step) s1 where "from < nxt" "valid_ref base sz from"
      "body s (cell_index base from) = Inr s1"
      "walk base sz nxt body s1 (from + sizeof_Object) = Inl e"
  using assms by (subst (asm) walk.simps) (auto split: if_splits sum.splits)

text \<open>The invariant rule of the heap walk.\<close>

lemma walk_rule:
  assumes "walk base sz nxt body s from = Inr s'"
    and "I from s"
    and step: "\<And>a s s1. I a s \<Longrightarrow> a < nxt \<Longrightarrow> valid_ref base sz a \<Longrightarrow>
                 body s (cell_index base a) = Inr s1 \<Longrightarrow> I (a + sizeof_Object) s1"
  shows "\<exists>a. \<not> a < nxt \<and> I a s'"
  using assms
proof (induction base sz nxt body s "from" rule: walk.induct)
  case (1 base sz nxt body s "from")
  from 1(2) show ?case
  proof (cases rule: walk_Inr_cases)
    case stop
    with 1(3) show ?thesis by blast
  next
    case (step s1)
    have "I (from + sizeof_Object) s1"
      using step(1-3) 1(3) 1(4) by blast
    with 1(1)[OF step(1) _ step(3) step(4)] step(2) 1(4) show ?thesis by blast
  qed
qed

subsection \<open>The only error of the collector is undefined behaviour\<close>

lemma walk_ub:
  assumes "walk base sz nxt body s from = Inl e"
    and "\<And>s i e. body s i = Inl e \<Longrightarrow> e = UndefinedBehaviour"
  shows "e = UndefinedBehaviour"
  using assms
proof (induction base sz nxt body s "from" rule: walk.induct)
  case (1 base sz nxt body s "from")
  from 1(2) show ?case
  proof (cases rule: walk_Inl_cases)
    case invalid
    then show ?thesis by simp
  next
    case body
    then show ?thesis using 1(3) by blast
  next
    case (step s1)
    with 1(1) 1(3) show ?thesis by blast
  qed
qed

lemma rebase_ub: "rebase hp old p = Inl e \<Longrightarrow> e = UndefinedBehaviour"
  by (auto simp: rebase_def split: if_splits)

lemma calculateNewLocations_body_ub: "calculateNewLocations_body s i = Inl e \<Longrightarrow> e = UndefinedBehaviour"
  by (auto simp: calculateNewLocations_body_def Let_def split: if_splits)

lemma updateFields_body_ub: "updateFields_body base sz m i = Inl e \<Longrightarrow> e = UndefinedBehaviour"
  by (auto simp: updateFields_body_def Let_def split: if_splits)

lemma compact_body_ub: "compact_body base sz m i = Inl e \<Longrightarrow> e = UndefinedBehaviour"
  by (auto simp: compact_body_def Let_def split: if_splits)

lemma updateFields_body_r_ub: "updateFields_body_r base sz old m i = Inl e \<Longrightarrow> e = UndefinedBehaviour"
  by (auto simp: updateFields_body_r_def Let_def split: if_splits sum.splits ObjectType.splits dest: rebase_ub)

lemma compact_body_r_ub: "compact_body_r base sz old m i = Inl e \<Longrightarrow> e = UndefinedBehaviour"
  by (auto simp: compact_body_r_def Let_def split: if_splits sum.splits dest: rebase_ub)

lemma updateStack_ub: "updateStack base sz m rs = Inl e \<Longrightarrow> e = UndefinedBehaviour"
  by (induction rs) (auto split: if_splits sum.splits)

lemma updateStack_r_ub: "updateStack_r base sz old m rs = Inl e \<Longrightarrow> e = UndefinedBehaviour"
  by (induction rs) (auto split: if_splits sum.splits dest: rebase_ub)

lemma mark_ub: "mark base sz s object = Inl e \<Longrightarrow> e = UndefinedBehaviour"
proof (induction base sz s object rule: mark.induct)
  case (1 base sz s object)
  from 1(3) show ?case
    apply (subst (asm) mark.simps)
    apply (simp only: split: if_splits sum.splits)
    using 1(1) 1(2) by auto
qed

lemma markAll_loop_ub: "markAll_loop base sz s rs = Inl e \<Longrightarrow> e = UndefinedBehaviour"
  by (induction rs arbitrary: s) (auto split: sum.splits dest: mark_ub)

lemma markAll_ub: "markAll vm = Inl e \<Longrightarrow> e = UndefinedBehaviour"
  by (auto simp: markAll_def split: sum.splits dest: markAll_loop_ub)

lemma gc_ub: "gc vm = Inl e \<Longrightarrow> e = UndefinedBehaviour"
  by (auto simp: gc_def calculateNewLocations_def updateAllObjectPointers_def compact_def
      split: sum.splits prod.splits
      dest: markAll_ub updateStack_ub
        walk_ub[OF _ calculateNewLocations_body_ub]
        walk_ub[OF _ updateFields_body_ub] walk_ub[OF _ compact_body_ub])

lemma heapSize_of_ub: "heapSize_of liveSize add = Inl e \<Longrightarrow> e = UndefinedBehaviour"
  by (auto simp: heapSize_of_def Let_def split: if_splits)

lemma gc_r_ub: "gc_r vm add ra = Inl e \<Longrightarrow> e = UndefinedBehaviour"
  by (auto simp: gc_r_def calculateNewLocations_r_def updateAllObjectPointers_r_def compact_r_def Let_def
      split: sum.splits prod.splits
      dest: markAll_ub updateStack_r_ub heapSize_of_ub
        walk_ub[OF _ calculateNewLocations_body_ub]
        walk_ub[OF _ updateFields_body_r_ub] walk_ub[OF _ compact_body_r_ub])

lemma bump_ub: "bump vm ty = Inl e \<Longrightarrow> e = UndefinedBehaviour"
  by (auto simp: bump_def Let_def split: if_splits)

subsection \<open>What a collection leaves in the fields of the VM\<close>

lemma calculateNewLocations_body_to:
  "calculateNewLocations_body s i = Inr s1 \<Longrightarrow>
     snd s1 = snd s \<or> snd s1 = snd s + sizeof_Object"
  by (auto simp: calculateNewLocations_body_def Let_def split: if_splits)

lemma calculateNewLocations_to:
  assumes "walk base sz nxt calculateNewLocations_body s from = Inr s'"
  shows "snd s \<le> snd s' \<and> (snd s' - snd s) mod sizeof_Object = 0"
proof -
  have "\<exists>a. \<not> a < nxt \<and> (snd s \<le> snd s' \<and> (snd s' - snd s) mod sizeof_Object = 0)"
  proof (rule walk_rule[OF assms, where I = "\<lambda>a t. snd s \<le> snd t \<and> (snd t - snd s) mod sizeof_Object = 0"])
    show "snd s \<le> snd s \<and> (snd s - snd s) mod sizeof_Object = 0" by simp
  next
    fix a t t1
    assume "snd s \<le> snd t \<and> (snd t - snd s) mod sizeof_Object = 0"
      and "calculateNewLocations_body t (cell_index base a) = Inr t1"
    then show "snd s \<le> snd t1 \<and> (snd t1 - snd s) mod sizeof_Object = 0"
      using calculateNewLocations_body_to[of t "cell_index base a" t1]
      unfolding sizeof_Object_def by presburger
  qed
  then show ?thesis by blast
qed

lemma markAll_fields:
  "markAll vm = Inr vm' \<Longrightarrow>
     stack vm' = stack vm \<and> heap vm' = heap vm \<and> nextp vm' = nextp vm \<and> cap vm' = cap vm \<and> out vm' = out vm
     \<and> VM.more vm' = VM.more vm"
  by (auto simp: markAll_def split: sum.splits)

lemma calculateNewLocations_r_fields:
  "calculateNewLocations_r vm = Inr (vm', liveSize) \<Longrightarrow>
     stack vm' = stack vm \<and> heap vm' = heap vm \<and> nextp vm' = nextp vm \<and> cap vm' = cap vm \<and> out vm' = out vm
     \<and> endp vm' = endp vm \<and> liveSize mod sizeof_Object = 0"
  using calculateNewLocations_to[of "heap vm" "cap vm" "nextp vm" "(mem vm, heap vm)" "heap vm"]
  by (auto simp: calculateNewLocations_r_def split: sum.splits prod.splits)

lemma updateStack_r_length:
  "updateStack_r base sz old m rs = Inr rs' \<Longrightarrow> length rs' = length rs"
  by (induction rs arbitrary: rs') (auto split: if_splits sum.splits)

lemma updateStack_length:
  "updateStack base sz m rs = Inr rs' \<Longrightarrow> length rs' = length rs"
  by (induction rs arbitrary: rs') (auto split: if_splits sum.splits)

lemma updateAllObjectPointers_r_fields:
  "updateAllObjectPointers_r vm old = Inr vm' \<Longrightarrow>
     length (stack vm') = length (stack vm) \<and> heap vm' = heap vm \<and> nextp vm' = nextp vm \<and> cap vm' = cap vm
     \<and> out vm' = out vm \<and> endp vm' = endp vm"
  by (auto simp: updateAllObjectPointers_r_def split: sum.splits dest: updateStack_r_length)

lemma compact_r_fields:
  "compact_r vm old = Inr vm' \<Longrightarrow>
     stack vm' = stack vm \<and> heap vm' = heap vm \<and> nextp vm' = nextp vm \<and> cap vm' = cap vm
     \<and> out vm' = out vm \<and> endp vm' = endp vm"
  by (auto simp: compact_r_def split: sum.splits)

lemma realloc_fields:
  "heap (realloc vm n ra) = fst ra \<and> cap (realloc vm n ra) = (if fst ra = 0 then 0 else n)
   \<and> stack (realloc vm n ra) = stack vm \<and> out (realloc vm n ra) = out vm"
  by (simp add: realloc_def)

lemma gc_r_Inr:
  assumes "gc_r vm add ra = Inr vm'"
  obtains liveSize heapSize where "liveSize mod sizeof_Object = 0"
    "heapSize_of liveSize add = Inr heapSize"
    "heap vm' = fst ra" "nextp vm' = fst ra + liveSize"
    "endp vm' = fst ra + heapSize"
    "cap vm' = (if fst ra = 0 then 0 else heapSize)"
    "out vm' = out vm @ [[liveSize, heapSize]]"
    "length (stack vm') = length (stack vm)"
proof -
  from assms obtain vm1 vm2 liveSize heapSize vm6 vm7 where
    a: "markAll vm = Inr vm1" and b: "calculateNewLocations_r vm1 = Inr (vm2, liveSize)"
    and h: "heapSize_of liveSize add = Inr heapSize"
    and c: "updateAllObjectPointers_r
              (realloc vm2 heapSize ra
                 \<lparr>endp := heap (realloc vm2 heapSize ra) + heapSize,
                  nextp := heap (realloc vm2 heapSize ra) + liveSize\<rparr>) (heap vm2) = Inr vm6"
    and d: "compact_r vm6 (heap vm2) = Inr vm7"
    and e: "vm' = vm7\<lparr>out := out vm7 @ [[nextp vm7 - heap vm7, endp vm7 - heap vm7]]\<rparr>"
    by (auto simp: gc_r_def Let_def split: sum.splits prod.splits)
  show thesis
    using markAll_fields[OF a] calculateNewLocations_r_fields[OF b] h
      updateAllObjectPointers_r_fields[OF c] compact_r_fields[OF d] e
    by (intro that[of liveSize heapSize]) (simp_all add: realloc_fields)
qed



lemma calculateNewLocations_fields:
  "calculateNewLocations vm = Inr (vm', e) \<Longrightarrow>
     stack vm' = stack vm \<and> heap vm' = heap vm \<and> nextp vm' = nextp vm \<and> cap vm' = cap vm \<and> out vm' = out vm
     \<and> heap vm \<le> e \<and> (e - heap vm) mod sizeof_Object = 0"
  using calculateNewLocations_to[of "heap vm" "cap vm" "nextp vm" "(mem vm, heap vm)" "heap vm"]
  by (auto simp: calculateNewLocations_def split: sum.splits prod.splits)

lemma updateAllObjectPointers_fields:
  "updateAllObjectPointers vm = Inr vm' \<Longrightarrow>
     length (stack vm') = length (stack vm) \<and> heap vm' = heap vm \<and> nextp vm' = nextp vm \<and> cap vm' = cap vm
     \<and> out vm' = out vm"
  by (auto simp: updateAllObjectPointers_def split: sum.splits dest: updateStack_length)

lemma compact_fields:
  "compact vm = Inr vm' \<Longrightarrow>
     stack vm' = stack vm \<and> heap vm' = heap vm \<and> nextp vm' = nextp vm \<and> cap vm' = cap vm
     \<and> out vm' = out vm"
  by (auto simp: compact_def split: sum.splits)

lemma gc_Inr:
  assumes "gc vm = Inr vm'"
  shows "heap vm' = heap vm \<and> cap vm' = cap vm \<and> heap vm \<le> nextp vm'
    \<and> (nextp vm' - heap vm) mod sizeof_Object = 0
    \<and> out vm' = out vm @ [[nextp vm' - heap vm]]
    \<and> length (stack vm') = length (stack vm)"
proof -
  from assms obtain vm1 vm2 e vm3 vm4 where
    a: "markAll vm = Inr vm1" and b: "calculateNewLocations vm1 = Inr (vm2, e)"
    and c: "updateAllObjectPointers vm2 = Inr vm3"
    and d: "compact vm3 = Inr vm4"
    and e: "vm' = vm4\<lparr>nextp := e, out := out vm4 @ [[e - heap vm4]]\<rparr>"
    by (auto simp: gc_def split: sum.splits prod.splits)
  show ?thesis
    using markAll_fields[OF a] calculateNewLocations_fields[OF b]
      updateAllObjectPointers_fields[OF c] compact_fields[OF d] e
    by simp
qed

lemma bump_out: "bump vm ty = Inr (vm', p) \<Longrightarrow> out vm' = out vm \<and> p = nextp vm"
  by (auto simp: bump_def Let_def split: if_splits)

section \<open>Heap sizing of the reallocating variant\<close>

subsection \<open>Rounding to a \<open>double\<close>\<close>

lemma bit_length_le: "bit_length n \<le> k \<longleftrightarrow> n < 2 ^ k"
proof (induction n arbitrary: k rule: bit_length.induct)
  case (1 n)
  show ?case
  proof (cases "n = 0")
    case True
    then show ?thesis by (simp add: bit_length.simps)
  next
    case False
    then have b: "bit_length n = Suc (bit_length (n div 2))"
      by (subst bit_length.simps) simp
    show ?thesis
    proof (cases k)
      case 0
      with False b show ?thesis by simp
    next
      case (Suc k')
      have "n div 2 < 2 ^ k' \<longleftrightarrow> n < 2 * 2 ^ k'" by linarith
      with 1[OF False, of k'] b Suc show ?thesis by simp
    qed
  qed
qed

text \<open>A number with at most 53 significant bits is a \<open>double\<close>: rounding leaves it as it is.\<close>

lemma round_double_dvd:
  assumes "2 ^ (bit_length n - 53) dvd n"
  shows "round_double n = n"
  using assms by (simp add: round_double_def Let_def)

lemma round_double_representable:
  assumes "2 ^ j dvd n" and "n \<le> 2 ^ (53 + j)"
  shows "round_double n = n"
proof (rule round_double_dvd)
  have "bit_length n - 53 \<le> 53 + j \<and> (n < 2 ^ (53 + j) \<longrightarrow> bit_length n - 53 \<le> j)"
  proof -
    have "(2::nat) ^ (53 + j) < 2 ^ (54 + j)" by simp
    with assms(2) have "n < 2 ^ (54 + j)" by linarith
    then have "bit_length n \<le> 54 + j" by (simp add: bit_length_le)
    moreover have "bit_length n \<le> 53 + j" if "n < 2 ^ (53 + j)"
      using that by (simp add: bit_length_le)
    ultimately show ?thesis by auto
  qed
  then consider "n < 2 ^ (53 + j)" "bit_length n - 53 \<le> j"
    | "n = 2 ^ (53 + j)" "bit_length n - 53 \<le> 53 + j"
    using assms(2) by (cases "n < 2 ^ (53 + j)") auto
  then show "2 ^ (bit_length n - 53) dvd n"
  proof cases
    case 1
    have "(2::nat) ^ (bit_length n - 53) dvd 2 ^ j" using 1(2) by (rule le_imp_power_dvd)
    then show ?thesis using assms(1) by (rule dvd_trans)
  next
    case 2
    have "(2::nat) ^ (bit_length n - 53) dvd 2 ^ (53 + j)"
      using 2(2) by (rule le_imp_power_dvd)
    then show ?thesis using 2(1) by simp
  qed
qed

text \<open>Rounding loses less than one part in \<open>2^52\<close>; one part in sixteen is all that is used.\<close>

lemma round_double_lower: "15 * n \<le> 16 * round_double n"
proof (cases "n < 2 ^ 53")
  case True
  then have "round_double n = n"
    using round_double_representable[of 0 n] by simp
  then show ?thesis by simp
next
  case False
  define e where "e = bit_length n - 53"
  define X :: nat where "X = 2 ^ e"
  define q where "q = n div X"
  define r where "r = n mod X"
  have X: "0 < X" by (simp add: X_def)
  from False have "\<not> bit_length n \<le> 53" by (simp add: bit_length_le)
  then have b: "bit_length n = Suc (52 + e)" by (simp add: e_def)
  have "\<not> bit_length n \<le> 52 + e" using b by simp
  then have "2 ^ (52 + e) \<le> n" by (simp add: bit_length_le)
  then have "2 ^ 52 * X \<le> n" by (simp add: X_def power_add)
  then have "2 ^ 52 \<le> q"
    unfolding q_def using X by (simp add: less_eq_div_iff_mult_less_eq)
  then have "15 \<le> q" by simp
  then have qX: "15 * X \<le> q * X" by (rule mult_le_mono1)
  have n: "n = q * X + r" and r: "r < X"
    using X by (simp_all add: q_def r_def)
  have "q * X \<le> round_double n"
    by (simp add: round_double_def Let_def e_def[symmetric] X_def[symmetric] q_def[symmetric])
  then show ?thesis using n r qX by linarith
qed

text \<open>
  While the sum does not exceed \<open>2^53\<close> every intermediate value is a \<open>double\<close>, and the
  computation is the exact one; \<open>liveSize\<close> is even, so the product is a whole number.
\<close>

lemma heapSize_of_exact:
  assumes "even liveSize" and "liveSize * 3 div 2 + additionalSize \<le> 2 ^ 53"
  shows "heapSize_of liveSize additionalSize = Inr (max HEAP_MIN (liveSize * 3 div 2 + additionalSize))"
proof -
  define m where "m = liveSize * 3 div 2"
  from assms(1) have m2: "3 * liveSize = 2 * m" unfolding m_def by presburger
  from assms(2) have b: "m + additionalSize \<le> 2 ^ 53" by (simp add: m_def)
  from m2 b have "liveSize \<le> 2 ^ 53" by linarith
  then have L: "round_double liveSize = liveSize"
    using round_double_representable[of 0 liveSize] by simp
  have P: "round_double (2 * m) = 2 * m"
    using round_double_representable[of 1 "2 * m"] b by simp
  have A: "round_double additionalSize = additionalSize"
    using round_double_representable[of 0 additionalSize] b by simp
  have S: "round_double (2 * m + 2 * additionalSize) = 2 * m + 2 * additionalSize"
    using round_double_representable[of 1 "2 * m + 2 * additionalSize"] b by simp
  have "m + additionalSize < 2 ^ 64" using b by simp
  then show ?thesis
    by (simp add: heapSize_of_def Let_def L m2 P A S m_def[symmetric] max_def)
qed

text \<open>The heap is never smaller than \<open>HEAP_MIN\<close>, and a request of one cell always fits.\<close>

lemma heapSize_of_min: "heapSize_of liveSize additionalSize = Inr h \<Longrightarrow> HEAP_MIN \<le> h"
  by (auto simp: heapSize_of_def Let_def split: if_splits)

lemma heapSize_of_room:
  assumes "heapSize_of liveSize sizeof_Object = Inr h"
  shows "liveSize + sizeof_Object \<le> h"
proof -
  define L where "L = round_double liveSize"
  define P where "P = round_double (3 * L)"
  define S where "S = round_double (P + 64)"
  have A: "round_double sizeof_Object = 32"
    using round_double_representable[of 0 32] by (simp add: sizeof_Object_def)
  from assms have h: "S div 2 \<le> h"
    by (auto simp: heapSize_of_def Let_def A L_def P_def S_def split: if_splits)
  have "2 * liveSize + 64 \<le> S"
  proof (cases "liveSize < 2 ^ 50")
    case True
    then have l: "L = liveSize"
      unfolding L_def using round_double_representable[of 0 liveSize] by simp
    have p: "P = 3 * liveSize"
      unfolding P_def l using round_double_representable[of 0 "3 * liveSize"] True by simp
    have "S = 3 * liveSize + 64"
      unfolding S_def p using round_double_representable[of 0 "3 * liveSize + 64"] True by simp
    then show ?thesis by simp
  next
    case False
    have "15 * liveSize \<le> 16 * L" "45 * L \<le> 16 * P" "15 * P + 960 \<le> 16 * S"
      using round_double_lower[of liveSize] round_double_lower[of "3 * L"]
        round_double_lower[of "P + 64"]
      by (simp_all add: L_def P_def S_def)
    moreover from False have "9 \<le> liveSize" by simp
    ultimately show ?thesis by linarith
  qed
  with h show ?thesis by (simp add: sizeof_Object_def)
qed

subsection \<open>The capacity after a collection\<close>

text \<open>
  The equations that run the two variants on a concrete state. The heaps of the examples
  are small, so their sizes are computed by \<open>heapSize_of_exact\<close>.
\<close>

lemmas eval_defs = newVMr_def pushInt_r_def pushPair_r_def newObject_r_def gc_r_def markAll_def
  calculateNewLocations_r_def updateAllObjectPointers_r_def compact_r_def realloc_def heapSize_of_exact
  bump_def set_value_def set_head_def set_tail_def push_def push_r_def pop_r_def
  calculateNewLocations_body_def updateFields_body_r_def compact_body_r_def rebase_def
  valid_ref_def cell_index_def ncells_def sizeof_Object_def HEAP_MIN_def STACK_MAX_def
  visit_def walk.simps mark.simps Let_def inplace_def junk0_def liveCount_def
  test4_setup_def seq_def churn_def churn_more_def

text \<open>
  C10, as the specification states it, fails: the capacity is computed in \<open>double\<close>, and
  a request of \<open>2^53 + 1\<close> bytes on an empty heap is rounded to \<open>2^53\<close>. The collection
  returns with a capacity of \<open>2^53\<close> bytes, which is neither
  \<open>max(HEAP_MIN, round(liveBytes * 1.5) + additionalBytes)\<close> nor at least
  \<open>liveBytes + additionalBytes\<close>.
\<close>

theorem gc_r_capacity_counterexample:
  "(case gc_r (newVMr 4096 junk0) (2 ^ 53 + 1) (4096, junk0) of
      Inl e \<Rightarrow> False
    | Inr vm' \<Rightarrow>
        nextp vm' - heap vm' = 0 \<and> endp vm' - heap vm' = 2 ^ 53
        \<and> endp vm' - heap vm' \<noteq> max HEAP_MIN ((nextp vm' - heap vm') * 3 div 2 + (2 ^ 53 + 1))
        \<and> \<not> endp vm' - heap vm' \<ge> (nextp vm' - heap vm') + (2 ^ 53 + 1))"
proof -
  have "round_double 0 = 0" "round_double 9007199254740993 = 9007199254740992"
    "round_double 18014398509481984 = 18014398509481984"
    by (simp_all add: round_double_def bit_length.simps)
  then have "heapSize_of 0 9007199254740993 = Inr 9007199254740992"
    by (simp add: heapSize_of_def HEAP_MIN_def)
  then show ?thesis by (simp add: eval_defs)
qed

text \<open>
  C10, amended. After a collection of the reallocating variant invoked with
  \<open>additionalBytes\<close> the capacity \<open>end - base\<close> is at least \<open>HEAP_MIN = 16\<close>, and
  \<open>liveBytes * 1.5\<close> is a whole number (so that \<open>round\<close> changes nothing). Whenever
  \<open>liveBytes * 1.5 + additionalBytes\<close> does not exceed \<open>2^53\<close>, the capacity is
  \<open>max(HEAP_MIN, liveBytes * 1.5 + additionalBytes)\<close> and at least
  \<open>liveBytes + additionalBytes\<close>.
\<close>

theorem gc_r_capacity:
  assumes "gc_r vm additionalBytes ra = Inr vm'"
  shows "HEAP_MIN = 16
       \<and> endp vm' - heap vm' \<ge> HEAP_MIN
       \<and> 2 * ((nextp vm' - heap vm') * 3 div 2) = 3 * (nextp vm' - heap vm')
       \<and> ((nextp vm' - heap vm') * 3 div 2 + additionalBytes \<le> 2 ^ 53 \<longrightarrow>
             endp vm' - heap vm' = max 16 ((nextp vm' - heap vm') * 3 div 2 + additionalBytes)
           \<and> endp vm' - heap vm' \<ge> (nextp vm' - heap vm') + additionalBytes)"
proof -
  from assms obtain liveSize heapSize where
    l: "liveSize mod sizeof_Object = 0" and hs: "heapSize_of liveSize additionalBytes = Inr heapSize"
    and h: "heap vm' = fst ra" and n: "nextp vm' = fst ra + liveSize"
    and e: "endp vm' = fst ra + heapSize"
    by (rule gc_r_Inr)
  from l have ev: "2 * (liveSize * 3 div 2) = 3 * liveSize" and even: "even liveSize"
    unfolding sizeof_Object_def by presburger+
  have "heapSize = max 16 (liveSize * 3 div 2 + additionalBytes)
      \<and> heapSize \<ge> liveSize + additionalBytes"
    if "liveSize * 3 div 2 + additionalBytes \<le> 2 ^ 53"
  proof -
    from heapSize_of_exact[OF even that] hs
    have "heapSize = max 16 (liveSize * 3 div 2 + additionalBytes)" by (simp add: HEAP_MIN_def)
    moreover have "liveSize \<le> liveSize * 3 div 2" using ev by linarith
    ultimately show ?thesis by simp
  qed
  then have imp: "liveSize * 3 div 2 + additionalBytes \<le> 2 ^ 53 \<longrightarrow>
      heapSize = max 16 (liveSize * 3 div 2 + additionalBytes)
      \<and> heapSize \<ge> liveSize + additionalBytes"
    by blast
  have m: "heapSize \<ge> 16" using heapSize_of_min[OF hs] by (simp add: HEAP_MIN_def)
  have f: "nextp vm' - heap vm' = liveSize" "endp vm' - heap vm' = heapSize"
    by (simp_all add: h n e)
  from ev m imp show ?thesis unfolding f HEAP_MIN_def by blast
qed

theorem gc_r_capacity_witness:
  "\<exists>vm'. gc_r \<lparr>stack = [4096], heap = 4096, nextp = 4128, mem = junk0, cap = 32, out = [],
               endp = 4128\<rparr> 32 (4096, junk0) = Inr vm'
     \<and> nextp vm' - heap vm' = 32 \<and> endp vm' - heap vm' = 80
     \<and> (nextp vm' - heap vm') * 3 div 2 + 32 \<le> (2 ^ 53 :: nat)
     \<and> HEAP_MIN = 16
     \<and> endp vm' - heap vm' \<ge> HEAP_MIN
     \<and> 2 * ((nextp vm' - heap vm') * 3 div 2) = 3 * (nextp vm' - heap vm')
     \<and> endp vm' - heap vm' = max 16 ((nextp vm' - heap vm') * 3 div 2 + 32)
     \<and> endp vm' - heap vm' \<ge> (nextp vm' - heap vm') + 32"
proof -
  obtain vm' where r: "gc_r \<lparr>stack = [4096], heap = 4096, nextp = 4128, mem = junk0, cap = 32,
      out = [], endp = 4128\<rparr> 32 (4096, junk0) = Inr vm'"
    and v: "nextp vm' - heap vm' = 32" "endp vm' - heap vm' = 80"
    by (simp add: eval_defs)
  from v have b: "(nextp vm' - heap vm') * 3 div 2 + 32 \<le> (2 ^ 53 :: nat)" by simp
  with gc_r_capacity[OF r] r v show ?thesis by blast
qed

section \<open>Allocation\<close>

lemma newObject_fixed_cases:
  "(case newObject vm ty of
      Inl e \<Rightarrow> (e = OutOfMemory) = (full vm \<and> (\<exists>vm1. gc vm = Inr vm1 \<and> full vm1))
    | Inr (vm', p) \<Rightarrow> length (out vm') = length (out vm) + (if full vm then 1 else 0))"
proof (cases "full vm")
  case False
  then show ?thesis
    by (auto simp: newObject_def full_def split: sum.splits dest: bump_ub bump_out)
next
  case True
  show ?thesis
  proof (cases "gc vm")
    case (Inl e)
    with True gc_ub[OF Inl] show ?thesis by (simp add: newObject_def full_def)
  next
    case (Inr vm1)
    with True gc_Inr[OF Inr] show ?thesis
      by (auto simp: newObject_def full_def split: sum.splits dest: bump_ub bump_out)
  qed
qed

lemma newObject_r_cases:
  "(case newObject_r vm ty ra of
      Inl e \<Rightarrow> e \<noteq> OutOfMemory
    | Inr (vm', p) \<Rightarrow> length (out vm') = length (out vm) + (if full_r vm then 1 else 0))"
proof (cases "full_r vm")
  case False
  then show ?thesis
    by (auto simp: newObject_r_def full_r_def split: sum.splits dest: bump_ub bump_out)
next
  case True
  show ?thesis
  proof (cases "gc_r vm sizeof_Object ra")
    case (Inl e)
    with True gc_r_ub[OF Inl] show ?thesis by (simp add: newObject_r_def full_r_def)
  next
    case (Inr vm1)
    from Inr obtain l h where "out vm1 = out vm @ [[l, h]]"
      by (rule gc_r_Inr)
    with True Inr show ?thesis
      by (auto simp: newObject_r_def full_r_def split: sum.splits dest: bump_ub bump_out)
  qed
qed

lemma gc_r_room:
  assumes "gc_r vm sizeof_Object ra = Inr vm1" and "fst ra \<noteq> 0"
  shows "\<not> full_r vm1 \<and> (\<exists>vm'. bump vm1 ty = Inr (vm', nextp vm1))"
proof -
  from assms(1) obtain l h where l: "l mod sizeof_Object = 0" "heap vm1 = fst ra"
    "nextp vm1 = fst ra + l" "endp vm1 = fst ra + h"
    "cap vm1 = (if fst ra = 0 then 0 else h)"
    and h: "heapSize_of l sizeof_Object = Inr h"
    by (rule gc_r_Inr)
  have "l + sizeof_Object \<le> h"
    using h by (rule heapSize_of_room)
  then show ?thesis
    using l assms(2) by (auto simp: full_r_def bump_def valid_ref_def Let_def)
qed


lemma run_r_snoc:
  "run_r al vm (xs @ [x]) =
     (case run_r al vm xs of Inl e \<Rightarrow> Inl e | Inr vm1 \<Rightarrow> step_r al vm1 x)"
  by (induction xs arbitrary: vm) (auto split: sum.splits)

lemma bump_fields:
  "bump vm ty = Inr (vm', p) \<Longrightarrow>
     out vm' = out vm \<and> p = nextp vm \<and> nextp vm' = nextp vm + sizeof_Object \<and> heap vm' = heap vm
     \<and> cap vm' = cap vm \<and> stack vm' = stack vm \<and> VM.more vm' = VM.more vm"
  by (auto simp: bump_def Let_def split: if_splits)

lemma bump_endp: "bump vm ty = Inr (vm', p) \<Longrightarrow> endp vm' = endp vm"
  by (auto simp: bump_def Let_def split: if_splits)

lemma exact_fill_fixed:
  assumes "nextp vm + sizeof_Object = heap vm + HEAP_SIZE" "cap vm = HEAP_SIZE" "heap vm \<noteq> 0"
  shows "\<exists>vm1. newObject vm ty = Inr (vm1, nextp vm) \<and> out vm1 = out vm \<and> full vm1
    \<and> newObject vm1 ty' =
        (case gc vm1 of Inl e \<Rightarrow> Inl e
         | Inr vm2 \<Rightarrow> if full vm2 then Inl OutOfMemory else bump vm2 ty')
    \<and> (case newObject vm1 ty' of Inl e \<Rightarrow> True
        | Inr (vm3, p) \<Rightarrow> length (out vm3) = length (out vm1) + 1)"
proof -
  have v: "valid_ref (heap vm) (cap vm) (nextp vm)"
    using assms unfolding valid_ref_def sizeof_Object_def HEAP_SIZE_def by presburger
  then obtain vm1 where b: "bump vm ty = Inr (vm1, nextp vm)"
    by (auto simp: bump_def Let_def)
  from assms have nf: "\<not> full vm" by (simp add: full_def)
  from b nf have n: "newObject vm ty = Inr (vm1, nextp vm)"
    by (simp add: newObject_def full_def)
  from bump_fields[OF b] assms have f1: "full vm1" by (simp add: full_def sizeof_Object_def)
  then have e: "newObject vm1 ty' =
        (case gc vm1 of Inl e \<Rightarrow> Inl e
         | Inr vm2 \<Rightarrow> if full vm2 then Inl OutOfMemory else bump vm2 ty')"
    by (simp add: newObject_def full_def split: sum.splits)
  show ?thesis
    using n bump_fields[OF b] f1 e newObject_fixed_cases[of vm1 ty']
    by (auto split: sum.splits)
qed

lemma exact_fill_r:
  assumes "nextp vm + sizeof_Object = endp vm" "cap vm = endp vm - heap vm" "heap vm \<noteq> 0"
    "heap vm \<le> nextp vm" "(nextp vm - heap vm) mod sizeof_Object = 0"
  shows "\<exists>vm1. newObject_r vm ty ra = Inr (vm1, nextp vm) \<and> out vm1 = out vm \<and> full_r vm1
    \<and> newObject_r vm1 ty' ra' =
        (case gc_r vm1 sizeof_Object ra' of Inl e \<Rightarrow> Inl e | Inr vm2 \<Rightarrow> bump vm2 ty')
    \<and> (case newObject_r vm1 ty' ra' of Inl e \<Rightarrow> True
        | Inr (vm3, p) \<Rightarrow> length (out vm3) = length (out vm1) + 1)"
proof -
  have v: "valid_ref (heap vm) (cap vm) (nextp vm)"
    using assms unfolding valid_ref_def sizeof_Object_def by simp
  then obtain vm1 where b: "bump vm ty = Inr (vm1, nextp vm)"
    by (auto simp: bump_def Let_def)
  from assms have nf: "\<not> full_r vm" by (simp add: full_r_def)
  from b nf have n: "newObject_r vm ty ra = Inr (vm1, nextp vm)"
    by (simp add: newObject_r_def full_r_def)
  from bump_fields[OF b] bump_endp[OF b] assms have f1: "full_r vm1"
    by (simp add: full_r_def sizeof_Object_def)
  then have e: "newObject_r vm1 ty' ra' =
        (case gc_r vm1 sizeof_Object ra' of Inl e \<Rightarrow> Inl e | Inr vm2 \<Rightarrow> bump vm2 ty')"
    by (simp add: newObject_r_def full_r_def)
  show ?thesis
    using n bump_fields[OF b] f1 e newObject_r_cases[of vm1 ty' ra']
    by (auto split: sum.splits)
qed


text \<open>
  C8. In both variants an allocation that exactly fills the heap (frontier plus one cell
  equals the end of the heap) succeeds at the old frontier without a collection, leaving
  the heap full; the allocation that follows goes through the collector: its result is
  the result of the collection followed by the retry, and when it succeeds the
  collector has printed one more line.
\<close>

theorem exact_fill_then_collect:
  "(nextp vm + sizeof_Object = heap vm + HEAP_SIZE \<longrightarrow> cap vm = HEAP_SIZE \<longrightarrow> heap vm \<noteq> 0 \<longrightarrow>
      (\<exists>vm1. newObject vm ty = Inr (vm1, nextp vm) \<and> out vm1 = out vm \<and> full vm1
        \<and> newObject vm1 ty' =
            (case gc vm1 of Inl e \<Rightarrow> Inl e
             | Inr vm2 \<Rightarrow> if full vm2 then Inl OutOfMemory else bump vm2 ty')
        \<and> (case newObject vm1 ty' of Inl e \<Rightarrow> True
            | Inr (vm3, p) \<Rightarrow> length (out vm3) = length (out vm1) + 1)))
   \<and> (nextp vmr + sizeof_Object = endp vmr \<longrightarrow> cap vmr = endp vmr - heap vmr \<longrightarrow> heap vmr \<noteq> 0 \<longrightarrow>
      heap vmr \<le> nextp vmr \<longrightarrow> (nextp vmr - heap vmr) mod sizeof_Object = 0 \<longrightarrow>
      (\<exists>vm1. newObject_r vmr ty ra = Inr (vm1, nextp vmr) \<and> out vm1 = out vmr \<and> full_r vm1
        \<and> newObject_r vm1 ty' ra' =
            (case gc_r vm1 sizeof_Object ra' of Inl e \<Rightarrow> Inl e | Inr vm2 \<Rightarrow> bump vm2 ty')
        \<and> (case newObject_r vm1 ty' ra' of Inl e \<Rightarrow> True
            | Inr (vm3, p) \<Rightarrow> length (out vm3) = length (out vm1) + 1)))"
  using exact_fill_fixed[of vm ty ty'] exact_fill_r[of vmr ty ra ty' ra'] by blast



theorem exact_fill_then_collect_witness:
  "nextp three_ints + sizeof_Object = endp three_ints \<and> cap three_ints = endp three_ints - heap three_ints
   \<and> heap three_ints \<noteq> 0 \<and> heap three_ints \<le> nextp three_ints
   \<and> (nextp three_ints - heap three_ints) mod sizeof_Object = 0
   \<and> (\<exists>vm1 vm3 p. newObject_r three_ints OBJ_INT (4096, junk0) = Inr (vm1, nextp three_ints)
            \<and> out vm1 = out three_ints \<and> full_r vm1
            \<and> newObject_r vm1 OBJ_INT (4096, junk0) = Inr (vm3, p)
            \<and> length (out vm3) = length (out vm1) + 1)
   \<and> nextp nearly_full + sizeof_Object = heap nearly_full + HEAP_SIZE \<and> cap nearly_full = HEAP_SIZE
   \<and> heap nearly_full \<noteq> 0
   \<and> (\<exists>vm1. newObject nearly_full OBJ_INT = Inr (vm1, nextp nearly_full)
         \<and> out vm1 = out nearly_full \<and> full vm1
         \<and> newObject vm1 OBJ_INT =
              (case gc vm1 of Inl e \<Rightarrow> Inl e
               | Inr vm2 \<Rightarrow> if full vm2 then Inl OutOfMemory else bump vm2 OBJ_INT))"
proof -
  have hV: "nextp nearly_full + sizeof_Object = heap nearly_full + HEAP_SIZE"
    "cap nearly_full = HEAP_SIZE" "heap nearly_full \<noteq> 0"
    by (simp_all add: nearly_full_def sizeof_Object_def HEAP_SIZE_def)
  have h: "nextp three_ints + sizeof_Object = endp three_ints"
    "cap three_ints = endp three_ints - heap three_ints" "heap three_ints \<noteq> 0"
    "heap three_ints \<le> nextp three_ints" "(nextp three_ints - heap three_ints) mod sizeof_Object = 0"
    by (simp_all add: three_ints_def sizeof_Object_def)
  obtain vm1 vm3 p where
    e1: "newObject_r three_ints OBJ_INT (4096, junk0) = Inr (vm1, nextp three_ints)"
    and e3: "newObject_r vm1 OBJ_INT (4096, junk0) = Inr (vm3, p)"
    by (simp add: eval_defs three_ints_def)
  note t = exact_fill_then_collect[of nearly_full OBJ_INT OBJ_INT three_ints "(4096, junk0)" "(4096, junk0)"]
  from t h obtain vm1' where
    c: "newObject_r three_ints OBJ_INT (4096, junk0) = Inr (vm1', nextp three_ints)"
      "out vm1' = out three_ints" "full_r vm1'"
      "(case newObject_r vm1' OBJ_INT (4096, junk0) of Inl e \<Rightarrow> True
            | Inr (vm3, p) \<Rightarrow> length (out vm3) = length (out vm1') + 1)"
    by blast
  from c(1) e1 have "vm1' = vm1" by simp
  with c e3 have A: "out vm1 = out three_ints \<and> full_r vm1 \<and> length (out vm3) = length (out vm1) + 1"
    by simp
  from t hV obtain vm2 where B: "newObject nearly_full OBJ_INT = Inr (vm2, nextp nearly_full)"
     "out vm2 = out nearly_full" "full vm2"
     "newObject vm2 OBJ_INT =
                  (case gc vm2 of Inl e \<Rightarrow> Inl e
                   | Inr vm2 \<Rightarrow> if full vm2 then Inl OutOfMemory else bump vm2 OBJ_INT)"
    by blast
  from A B hV h e1 e3 show ?thesis by blast
qed


section \<open>The walks, cell by cell\<close>

lemma cell_index_cell [simp]: "cell_index base (base + sizeof_Object * k) = k"
  by (simp add: cell_index_def sizeof_Object_def)

lemma scanned_less: "base + sizeof_Object * k < nxt \<longleftrightarrow> k < scanned base nxt"
  unfolding scanned_def sizeof_Object_def
  apply simp
  by linarith


lemma walk_index_rule:
  assumes w: "walk base sz nxt body s base = Inr s'"
    and init: "P 0 s"
    and step: "\<And>k s s1. P k s \<Longrightarrow> k < scanned base nxt \<Longrightarrow>
                 valid_ref base sz (base + sizeof_Object * k) \<Longrightarrow> body s k = Inr s1 \<Longrightarrow> P (Suc k) s1"
  shows "P (scanned base nxt) s'"
proof -
  let ?I = "\<lambda>a s. \<exists>k. a = base + sizeof_Object * k \<and> k \<le> scanned base nxt \<and> P k s"
  have "\<exists>a. \<not> a < nxt \<and> ?I a s'"
  proof (rule walk_rule[OF w, where I = ?I])
    show "?I base s" using init by (intro exI[of _ 0]) simp
  next
    fix a s s1
    assume I: "?I a s" and lt: "a < nxt" and v: "valid_ref base sz a"
      and b: "body s (cell_index base a) = Inr s1"
    from I obtain k where k: "a = base + sizeof_Object * k" "P k s" by blast
    from lt k have ks: "k < scanned base nxt" by (simp add: scanned_less)
    from step[OF k(2) ks] v b k(1) have "P (Suc k) s1" by simp
    with ks k(1) show "?I (a + sizeof_Object) s1"
      by (intro exI[of _ "Suc k"]) simp
  qed
  then obtain k where "\<not> base + sizeof_Object * k < nxt" "k \<le> scanned base nxt" "P k s'"
    by blast
  then have "k = scanned base nxt" by (simp add: scanned_less)
  with \<open>P k s'\<close> show ?thesis by simp
qed

lemma live_below_0 [simp]: "live_below m 0 = 0"
  by (simp add: live_below_def)

lemma live_below_Suc:
  "live_below m (Suc k) = (if moveTo (m k) \<noteq> 0 then Suc (live_below m k) else live_below m k)"
proof -
  have "{j. j < Suc k \<and> moveTo (m j) \<noteq> 0} =
        (if moveTo (m k) \<noteq> 0 then insert k {j. j < k \<and> moveTo (m j) \<noteq> 0}
         else {j. j < k \<and> moveTo (m j) \<noteq> 0})"
    by (auto simp: less_Suc_eq)
  then show ?thesis by (simp add: live_below_def)
qed

lemma live_below_le: "live_below m k \<le> k"
  by (induction k) (auto simp: live_below_Suc)

lemma live_below_mono: "i \<le> k \<Longrightarrow> live_below m i \<le> live_below m k"
  by (induction k) (auto simp: live_below_Suc le_Suc_eq)

lemma live_below_strict:
  "i < k \<Longrightarrow> moveTo (m i) \<noteq> 0 \<Longrightarrow> live_below m i < live_below m k"
  using live_below_mono[of "Suc i" k m] by (simp add: live_below_Suc)

lemma calculateNewLocations_walk:
  assumes "walk base sz nxt calculateNewLocations_body (m, to0) base = Inr s'"
  shows "s' = (planned to0 m (scanned base nxt), to0 + sizeof_Object * live_below m (scanned base nxt))"
proof -
  let ?P = "\<lambda>k s. s = (planned to0 m k, to0 + sizeof_Object * live_below m k)"
  have "?P (scanned base nxt) s'"
  proof (rule walk_index_rule[OF assms, where P = ?P])
    show "?P 0 (m, to0)" by (simp add: planned_def)
  next
    fix k s s1
    assume P: "?P k s" and b: "calculateNewLocations_body s k = Inr s1"
    have "planned to0 m k k = m k" by (simp add: planned_def)
    moreover have "(planned to0 m k)(k := (m k)\<lparr>moveTo := to0 + sizeof_Object * live_below m k\<rparr>)
        = planned to0 m (Suc k)" if "moveTo (m k) \<noteq> 0"
      using that by (auto simp: planned_def fun_eq_iff less_Suc_eq)
    moreover have "planned to0 m k = planned to0 m (Suc k)" if "moveTo (m k) = 0"
      using that by (auto simp: planned_def fun_eq_iff less_Suc_eq)
    ultimately show "?P (Suc k) s1"
      using P b by (auto simp: calculateNewLocations_body_def Let_def live_below_Suc split: if_splits)
  qed
  then show ?thesis .
qed


lemma walk_valid:
  assumes "walk base sz nxt body s base = Inr s'"
  shows "\<forall>k < scanned base nxt. valid_ref base sz (base + sizeof_Object * k)"
proof -
  let ?P = "\<lambda>k (s::'a). \<forall>j < k. valid_ref base sz (base + sizeof_Object * j)"
  have "?P (scanned base nxt) s'"
    by (rule walk_index_rule[OF assms, where P = ?P]) (auto simp: less_Suc_eq)
  then show ?thesis .
qed

lemma scanned_le_ncells:
  assumes "walk base sz nxt body s base = Inr s'"
  shows "scanned base nxt \<le> ncells sz"
proof (cases "scanned base nxt")
  case 0
  then show ?thesis by simp
next
  case (Suc n)
  with walk_valid[OF assms] have "valid_ref base sz (base + sizeof_Object * n)" by simp
  then have "n < ncells sz" using valid_ref_index by fastforce
  with Suc show ?thesis by simp
qed

lemma updateFields_body_r_frame:
  assumes "updateFields_body_r base sz old m i = Inr m1"
  shows "(\<forall>j. j \<noteq> i \<longrightarrow> m1 j = m j) \<and> moveTo (m1 i) = moveTo (m i) \<and> otype (m1 i) = otype (m i)
    \<and> ivalue (m1 i) = ivalue (m i)"
  using assms
  by (auto simp: updateFields_body_r_def Let_def split: if_splits sum.splits ObjectType.splits)

lemma updateFields_r_frame:
  assumes "walk base sz nxt (updateFields_body_r base sz old) m base = Inr m'"
  shows "(\<forall>i. moveTo (m' i) = moveTo (m i) \<and> otype (m' i) = otype (m i))
       \<and> (\<forall>i \<ge> scanned base nxt. m' i = m i)"
proof -
  let ?P = "\<lambda>k mk. (\<forall>i. moveTo (mk i) = moveTo (m i) \<and> otype (mk i) = otype (m i)) \<and> (\<forall>i \<ge> k. mk i = m i)"
  have "?P (scanned base nxt) m'"
  proof (rule walk_index_rule[OF assms, where P = ?P])
    show "?P 0 m" by simp
  next
    fix k mk m1
    assume P: "?P k mk" and b: "updateFields_body_r base sz old mk k = Inr m1"
    from updateFields_body_r_frame[OF b] P show "?P (Suc k) m1"
      by (metis Suc_leD Suc_n_not_le_n)
  qed
  then show ?thesis .
qed

lemma compact_body_r_writes:
  assumes "compact_body_r base sz old m i = Inr m1"
  shows "(moveTo (m i) = 0 \<and> m1 = m) \<or>
         (\<exists>to. moveTo (m i) \<noteq> 0 \<and> rebase base old (moveTo (m i)) = Inr to \<and> valid_ref base sz to
            \<and> m1 = m(cell_index base to := (m i)\<lparr>moveTo := 0\<rparr>))"
  using assms
  by (auto simp: compact_body_r_def Let_def split: if_splits sum.splits)

lemma compact_r_frame:
  assumes w: "walk base sz nxt (compact_body_r base sz old) m base = Inr m'"
    and H: "\<And>i to. i < scanned base nxt \<Longrightarrow> moveTo (m i) \<noteq> 0 \<Longrightarrow>
              rebase base old (moveTo (m i)) = Inr to \<Longrightarrow>
              cell_index base to \<le> i \<and> cell_index base to \<notin> D"
  shows "\<forall>j \<in> D. m' j = m j"
proof -
  let ?P = "\<lambda>k mk. (\<forall>j \<ge> k. mk j = m j) \<and> (\<forall>j \<in> D. mk j = m j)"
  have "?P (scanned base nxt) m'"
  proof (rule walk_index_rule[OF w, where P = ?P])
    show "?P 0 m" by simp
  next
    fix k mk m1
    assume P: "?P k mk" and k: "k < scanned base nxt"
      and b: "compact_body_r base sz old mk k = Inr m1"
    from P have mk: "mk k = m k" by simp
    from compact_body_r_writes[OF b] show "?P (Suc k) m1"
    proof
      assume "moveTo (mk k) = 0 \<and> m1 = mk"
      with P show ?thesis by simp
    next
      assume "\<exists>to. moveTo (mk k) \<noteq> 0 \<and> rebase base old (moveTo (mk k)) = Inr to \<and> valid_ref base sz to
            \<and> m1 = mk(cell_index base to := (mk k)\<lparr>moveTo := 0\<rparr>)"
      then obtain to where t: "moveTo (mk k) \<noteq> 0" "rebase base old (moveTo (mk k)) = Inr to"
        "m1 = mk(cell_index base to := (mk k)\<lparr>moveTo := 0\<rparr>)" by blast
      from H[OF k, of to] t mk have "cell_index base to \<le> k" "cell_index base to \<notin> D" by simp_all
      with P t(3) show ?thesis by auto
    qed
  qed
  then show ?thesis by simp
qed


lemma gc_r_phases:
  "gc_r vm additionalSize ra =
     (case gc_r_prepare vm additionalSize ra of Inl e \<Rightarrow> Inl e | Inr (vm5, oldHeap) \<Rightarrow>
      case updateAllObjectPointers_r vm5 oldHeap of Inl e \<Rightarrow> Inl e | Inr vm6 \<Rightarrow>
      case compact_r vm6 oldHeap of Inl e \<Rightarrow> Inl e | Inr vm7 \<Rightarrow>
        Inr (vm7\<lparr>out := out vm7 @ [[nextp vm7 - heap vm7, endp vm7 - heap vm7]]\<rparr>))"
  by (simp add: gc_r_def gc_r_prepare_def Let_def split: sum.splits prod.splits)

lemma gc_r_prepare_Inr:
  assumes "gc_r_prepare vm additionalSize ra = Inr (vm5, oldHeap)"
  shows "\<exists>m1. oldHeap = heap vm \<and> heap vm5 = fst ra
    \<and> nextp vm5 = fst ra + sizeof_Object * live_below m1 (scanned (heap vm) (nextp vm))
    \<and> Inr (cap vm5) = (if fst ra = 0 then Inr 0
                else heapSize_of (sizeof_Object * live_below m1 (scanned (heap vm) (nextp vm))) additionalSize)
    \<and> scanned (heap vm) (nextp vm) \<le> ncells (cap vm)
    \<and> (\<forall>i. fst ra \<noteq> 0 \<longrightarrow> i < ncells (cap vm) \<longrightarrow> i < ncells (cap vm5) \<longrightarrow>
          mem vm5 i = planned (heap vm) m1 (scanned (heap vm) (nextp vm)) i)"
proof -
  from assms obtain vm1 vm2 liveSize hs where
    a: "markAll vm = Inr vm1" and b: "calculateNewLocations_r vm1 = Inr (vm2, liveSize)"
    and hs: "heapSize_of liveSize additionalSize = Inr hs"
    and c': "vm5 = realloc vm2 hs ra\<lparr>endp := heap (realloc vm2 hs ra) + hs,
                  nextp := heap (realloc vm2 hs ra) + liveSize\<rparr>"
    and d: "oldHeap = heap vm2"
    by (auto simp: gc_r_prepare_def Let_def split: sum.splits prod.splits)
  note f1 = markAll_fields[OF a]
  from b obtain s' where w: "walk (heap vm1) (cap vm1) (nextp vm1) calculateNewLocations_body
        (mem vm1, heap vm1) (heap vm1) = Inr s'"
    and vm2: "vm2 = vm1\<lparr>mem := fst s'\<rparr>" and ls: "liveSize = snd s' - heap vm1"
    by (auto simp: calculateNewLocations_r_def split: sum.splits prod.splits)
  let ?n = "scanned (heap vm) (nextp vm)"
  from calculateNewLocations_walk[OF w] f1
  have s': "s' = (planned (heap vm) (mem vm1) ?n, heap vm + sizeof_Object * live_below (mem vm1) ?n)"
    by simp
  from scanned_le_ncells[OF w] f1 have n: "?n \<le> ncells (cap vm)" by simp
  from ls s' f1 have ls': "liveSize = sizeof_Object * live_below (mem vm1) ?n" by simp
  have m2: "mem vm2 = planned (heap vm) (mem vm1) ?n" "cap vm2 = cap vm" "heap vm2 = heap vm"
    using vm2 s' f1 by simp_all
  have h5: "heap vm5 = fst ra" and n5: "nextp vm5 = fst ra + liveSize"
    and c5: "cap vm5 = (if fst ra = 0 then 0 else hs)"
    and m5: "fst ra \<noteq> 0 \<Longrightarrow> mem vm5 = (\<lambda>i. if i < ncells (min (cap vm2) hs) then mem vm2 i else snd ra i)"
    unfolding c' by (simp_all add: realloc_def)
  have "oldHeap = heap vm" using d m2 by simp
  moreover have "nextp vm5 = fst ra + sizeof_Object * live_below (mem vm1) ?n"
    using n5 ls' by simp
  moreover have "Inr (cap vm5) = (if fst ra = 0 then Inr 0
                else heapSize_of (sizeof_Object * live_below (mem vm1) ?n) additionalSize)"
    using c5 ls' hs by simp
  moreover have "mem vm5 i = planned (heap vm) (mem vm1) ?n i"
    if "fst ra \<noteq> 0" "i < ncells (cap vm)" "i < ncells (cap vm5)" for i
    using that m5 c5 m2 by (simp add: ncells_def min_def)
  ultimately show ?thesis using h5 n by blast
qed

lemma scanned_cells [simp]: "scanned base (base + sizeof_Object * n) = n"
  by (simp add: scanned_def sizeof_Object_def)

lemma rebase_planned:
  "rebase hp old (old + sizeof_Object * r) = Inr (hp + sizeof_Object * r)"
  by (simp add: rebase_def)

section \<open>The mark phase\<close>

lemma valid_ref_inj:
  "valid_ref base sz p \<Longrightarrow> valid_ref base sz q \<Longrightarrow> cell_index base p = cell_index base q \<Longrightarrow> p = q"
  unfolding valid_ref_def cell_index_def sizeof_Object_def
  by (metis add_diff_inverse_nat div_mult_mod_eq add.right_neutral not_less)

lemma reachable_subset:
  assumes "set rs \<subseteq> reachable base m rs0"
  shows "reachable base m rs \<subseteq> reachable base m rs0"
proof
  fix p assume "p \<in> reachable base m rs"
  then show "p \<in> reachable base m rs0"
    using assms by (induction rule: reachable.induct) (auto intro: reachable.head reachable.tail)
qed

lemma reachable_closed:
  assumes "set rs \<subseteq> X"
    and "\<And>p. p \<in> X \<Longrightarrow> otype (m (cell_index base p)) = OBJ_PAIR \<Longrightarrow>
            head (m (cell_index base p)) \<in> X \<and> tail (m (cell_index base p)) \<in> X"
  shows "reachable base m rs \<subseteq> X"
proof
  fix p assume "p \<in> reachable base m rs"
  then show "p \<in> X"
    using assms by (induction rule: reachable.induct) auto
qed

lemma reachable_head:
  "otype (m (cell_index base p)) = OBJ_PAIR \<Longrightarrow>
     reachable base m [head (m (cell_index base p))] \<subseteq> reachable base m [p]"
  by (rule reachable_subset) (simp add: reachable.head reachable.root)

lemma reachable_tail:
  "otype (m (cell_index base p)) = OBJ_PAIR \<Longrightarrow>
     reachable base m [tail (m (cell_index base p))] \<subseteq> reachable base m [p]"
  by (rule reachable_subset) (simp add: reachable.tail reachable.root)


lemma reachable_same_graph:
  assumes "same_graph m0 m"
  shows "reachable base m rs = reachable base m0 rs"
proof -
  have *: "p \<in> reachable base m2 rs" if "p \<in> reachable base m1 rs"
    and "\<forall>i. otype (m1 i) = otype (m2 i) \<and> head (m1 i) = head (m2 i) \<and> tail (m1 i) = tail (m2 i)"
    for p m1 m2
    using that
  proof (induction rule: reachable.induct)
    case (root r)
    then show ?case by (simp add: reachable.root)
  next
    case (head p)
    then show ?case by (metis reachable.head)
  next
    case (tail p)
    then show ?case by (metis reachable.tail)
  qed
  have a: "\<forall>i. otype (m i) = otype (m0 i) \<and> head (m i) = head (m0 i) \<and> tail (m i) = tail (m0 i)"
    and b: "\<forall>i. otype (m0 i) = otype (m i) \<and> head (m0 i) = head (m i) \<and> tail (m0 i) = tail (m i)"
    using assms unfolding same_graph_def by simp_all
  show ?thesis
  proof (intro equalityI subsetI)
    fix p assume "p \<in> reachable base m rs" then show "p \<in> reachable base m0 rs" using *[OF _ a] by blast
  next
    fix p assume "p \<in> reachable base m0 rs" then show "p \<in> reachable base m rs" using *[OF _ b] by blast
  qed
qed

lemma marks_Nil: "marks base sz m [] m"
  by (simp add: marks_def)

lemma marks_visit:
  "valid_ref base sz p \<Longrightarrow> marks base sz (fst s) [p] (fst (visit base s p))"
  by (simp add: marks_def visit_def)

lemma marks_append:
  assumes a: "marks base sz m e1 m1" and b: "marks base sz m1 e2 m2"
    and d: "set e1 \<inter> set e2 = {}"
  shows "marks base sz m (e1 @ e2) m2"
proof -
  have inj: "\<forall>x \<in> set e1. \<forall>y \<in> set e2. cell_index base x \<noteq> cell_index base y"
  proof (intro ballI)
    fix x y assume "x \<in> set e1" "y \<in> set e2"
    then show "cell_index base x \<noteq> cell_index base y"
      using a b d valid_ref_inj[of base sz x y] unfolding marks_def by blast
  qed
  have "m2 (cell_index base x) = (m (cell_index base x))\<lparr>moveTo := x\<rparr>" if "x \<in> set e1" for x
  proof -
    from that inj have "cell_index base x \<notin> cell_index base ` set e2" by force
    with b have "m2 (cell_index base x) = m1 (cell_index base x)" unfolding marks_def by blast
    with a that show ?thesis unfolding marks_def by simp
  qed
  moreover have "m2 (cell_index base y) = (m (cell_index base y))\<lparr>moveTo := y\<rparr>" if "y \<in> set e2" for y
  proof -
    from that inj have "cell_index base y \<notin> cell_index base ` set e1" by force
    with a have "m1 (cell_index base y) = m (cell_index base y)" unfolding marks_def by blast
    with b that show ?thesis unfolding marks_def by simp
  qed
  moreover have "m2 i = m i" if "i \<notin> cell_index base ` set (e1 @ e2)" for i
  proof -
    from that have "i \<notin> cell_index base ` set e1" "i \<notin> cell_index base ` set e2" by auto
    with a b show ?thesis unfolding marks_def by metis
  qed
  ultimately show ?thesis
    using a b d unfolding marks_def by auto
qed

lemma marked_extend:
  assumes v: "\<forall>a \<in> set ext. valid_ref base sz a"
    and u: "\<forall>a \<in> set ext. m' (cell_index base a) = (m (cell_index base a))\<lparr>moveTo := a\<rparr>"
    and f: "\<forall>i. i \<notin> cell_index base ` set ext \<longrightarrow> m' i = m i"
  shows "marked base sz m' = marked base sz m \<union> set ext"
proof (rule set_eqI)
  fix q
  show "q \<in> marked base sz m' \<longleftrightarrow> q \<in> marked base sz m \<union> set ext"
  proof (cases "cell_index base q \<in> cell_index base ` set ext")
    case False
    then have "m' (cell_index base q) = m (cell_index base q)" "q \<notin> set ext"
      using f by auto
    then show ?thesis by (simp add: marked_def)
  next
    case True
    then obtain a where a: "a \<in> set ext" "cell_index base q = cell_index base a" by blast
    show ?thesis
    proof (cases "valid_ref base sz q")
      case False
      then show ?thesis using v by (auto simp: marked_def)
    next
      case True
      with a v have "q = a" using valid_ref_inj by blast
      with a u True show ?thesis by (auto simp: marked_def valid_ref_def)
    qed
  qed
qed

lemma marks_marked:
  "marks base sz m ext m' \<Longrightarrow> marked base sz m' = marked base sz m \<union> set ext"
  unfolding marks_def by (intro marked_extend) blast+

lemma marks_same_graph:
  assumes "marks base sz m ext m'" "same_graph m0 m"
  shows "same_graph m0 m'"
  unfolding same_graph_def
proof
  fix i
  show "otype (m' i) = otype (m0 i) \<and> head (m' i) = head (m0 i) \<and> tail (m' i) = tail (m0 i)
        \<and> ivalue (m' i) = ivalue (m0 i)"
  proof (cases "i \<in> cell_index base ` set ext")
    case True
    then obtain a where "a \<in> set ext" "i = cell_index base a" by blast
    with assms show ?thesis unfolding marks_def same_graph_def by simp
  next
    case False
    with assms show ?thesis unfolding marks_def same_graph_def by simp
  qed
qed

lemma mark_spec:
  assumes "same_graph m0 (fst s)" and "\<forall>q \<in> reachable base m0 [p]. valid_ref base sz q"
  shows "\<exists>s' ext. mark base sz s p = Inr s' \<and> mark_good base sz m0 s s' p ext"
  using assms
proof (induction base sz s p rule: mark.induct)
  case (1 base sz s p)
  let ?i = "cell_index base p"
  note g = \<open>same_graph m0 (fst s)\<close>
  note W = \<open>\<forall>q \<in> reachable base m0 [p]. valid_ref base sz q\<close>
  have vp: "valid_ref base sz p" using W by (simp add: reachable.root)
  show ?case
  proof (cases "moveTo (fst s ?i) \<noteq> 0")
    case True
    with vp have "mark base sz s p = Inr s" by (simp add: mark.simps)
    moreover have "mark_good base sz m0 s s p []"
      using True vp by (simp add: mark_good_def marks_Nil marked_def)
    ultimately show ?thesis by blast
  next
    case False
    let ?s1 = "visit base s p"
    have mk1: "marks base sz (fst s) [p] (fst ?s1)" using vp by (rule marks_visit)
    have g1: "same_graph m0 (fst ?s1)" using mk1 g by (rule marks_same_graph)
    have md1: "marked base sz (fst ?s1) = marked base sz (fst s) \<union> {p}"
      using marks_marked[OF mk1] by simp
    have pu: "p \<notin> marked base sz (fst s)" using False by (simp add: marked_def)
    have t1: "snd ?s1 = snd s @ [p]" by (simp add: visit_def)
    show ?thesis
    proof (cases "otype (fst ?s1 ?i) = OBJ_PAIR")
      case np: False
      with vp False have "mark base sz s p = Inr ?s1" by (simp add: mark.simps)
      moreover have "otype (m0 ?i) \<noteq> OBJ_PAIR" using np g1 by (simp add: same_graph_def)
      then have "mark_good base sz m0 s ?s1 p [p]"
        using mk1 md1 pu t1 by (simp add: mark_good_def reachable.root)
      ultimately show ?thesis by blast
    next
      case pr: True
      then have pr0: "otype (m0 ?i) = OBJ_PAIR" using g1 by (simp add: same_graph_def)
      have h: "head (fst ?s1 ?i) = head (m0 ?i)" using g1 by (simp add: same_graph_def)
      have Wh: "\<forall>q \<in> reachable base m0 [head (fst ?s1 ?i)]. valid_ref base sz q"
        using W reachable_head[of m0 base p, OF pr0] h by auto
      from "1.IH"(1)[OF _ _ pr g1 Wh] vp False
      obtain s2 e1 where r2: "mark base sz ?s1 (head (fst ?s1 ?i)) = Inr s2"
        and g2: "mark_good base sz m0 ?s1 s2 (head (fst ?s1 ?i)) e1" by auto
      from g2 have mk2: "marks base sz (fst ?s1) e1 (fst s2)" and t2: "snd s2 = snd ?s1 @ e1"
        and d2: "set e1 \<inter> marked base sz (fst ?s1) = {}"
        and hm: "head (m0 ?i) \<in> marked base sz (fst s2)"
        and sub2: "set e1 \<subseteq> reachable base m0 [head (m0 ?i)]"
        and ch2: "\<forall>a \<in> set e1. otype (m0 (cell_index base a)) = OBJ_PAIR \<longrightarrow>
           head (m0 (cell_index base a)) \<in> marked base sz (fst s2)
           \<and> tail (m0 (cell_index base a)) \<in> marked base sz (fst s2)"
        unfolding mark_good_def h by simp_all
      have sg2: "same_graph m0 (fst s2)" using mk2 g1 by (rule marks_same_graph)
      have md2: "marked base sz (fst s2) = marked base sz (fst ?s1) \<union> set e1"
        using mk2 by (rule marks_marked)
      have t: "tail (fst s2 ?i) = tail (m0 ?i)" using sg2 by (simp add: same_graph_def)
      have Wt: "\<forall>q \<in> reachable base m0 [tail (fst s2 ?i)]. valid_ref base sz q"
        using W reachable_tail[of m0 base p, OF pr0] t by auto
      from "1.IH"(2)[OF _ _ pr r2 sg2 Wt] vp False
      obtain s3 e2 where r3: "mark base sz s2 (tail (fst s2 ?i)) = Inr s3"
        and g3: "mark_good base sz m0 s2 s3 (tail (fst s2 ?i)) e2" by auto
      from g3 have mk3: "marks base sz (fst s2) e2 (fst s3)" and t3: "snd s3 = snd s2 @ e2"
        and d3: "set e2 \<inter> marked base sz (fst s2) = {}"
        and tm: "tail (m0 ?i) \<in> marked base sz (fst s3)"
        and sub3: "set e2 \<subseteq> reachable base m0 [tail (m0 ?i)]"
        and ch3: "\<forall>a \<in> set e2. otype (m0 (cell_index base a)) = OBJ_PAIR \<longrightarrow>
           head (m0 (cell_index base a)) \<in> marked base sz (fst s3)
           \<and> tail (m0 (cell_index base a)) \<in> marked base sz (fst s3)"
        unfolding mark_good_def t by simp_all
      have md3: "marked base sz (fst s3) = marked base sz (fst s2) \<union> set e2"
        using mk3 by (rule marks_marked)
      have res: "mark base sz s p = Inr s3"
        using vp False pr r2 r3 by (subst mark.simps) simp
      have d12: "set e1 \<inter> set e2 = {}" using d3 md2 by blast
      have dp: "p \<notin> set e1" "p \<notin> set e2" using d2 d3 md1 md2 by blast+
      have "marks base sz (fst s) ([p] @ e1) (fst s2)"
        using marks_append[OF mk1 mk2] dp by simp
      then have mk: "marks base sz (fst s) (([p] @ e1) @ e2) (fst s3)"
        using marks_append[OF _ mk3, of "fst s" "[p] @ e1"] d12 dp by simp
      have "mark_good base sz m0 s s3 p (p # e1 @ e2)"
        unfolding mark_good_def
      proof (intro conjI)
        show "snd s3 = snd s @ p # e1 @ e2" using t1 t2 t3 by simp
        show "marks base sz (fst s) (p # e1 @ e2) (fst s3)" using mk by simp
        show "p \<in> marked base sz (fst s3)" using md1 md2 md3 by blast
        show "set (p # e1 @ e2) \<inter> marked base sz (fst s) = {}"
          using pu d2 d3 md1 md2 by auto
        show "set (p # e1 @ e2) \<subseteq> reachable base m0 [p]"
          using sub2 sub3 reachable_head[of m0 base p, OF pr0] reachable_tail[of m0 base p, OF pr0]
          by (auto simp: reachable.root)
        show "\<forall>a \<in> set (p # e1 @ e2). otype (m0 (cell_index base a)) = OBJ_PAIR \<longrightarrow>
           head (m0 (cell_index base a)) \<in> marked base sz (fst s3)
           \<and> tail (m0 (cell_index base a)) \<in> marked base sz (fst s3)"
          using hm tm ch2 ch3 md3 by auto
      qed
      with res show ?thesis by blast
    qed
  qed
qed


lemma markAll_loop_spec:
  assumes "mark_inv base sz m0 (reachable base m0 rs0) s"
    and "\<forall>q \<in> reachable base m0 rs0. valid_ref base sz q"
    and "set rs \<subseteq> reachable base m0 rs0"
  shows "\<exists>s'. markAll_loop base sz s rs = Inr s' \<and> mark_inv base sz m0 (reachable base m0 rs0) s'
           \<and> set rs \<subseteq> set (snd s') \<and> set (snd s) \<subseteq> set (snd s')"
  using assms
proof (induction rs arbitrary: s)
  case Nil
  then show ?case by simp
next
  case (Cons r rs)
  let ?R = "reachable base m0 rs0"
  note inv = \<open>mark_inv base sz m0 ?R s\<close>
  note W = \<open>\<forall>q \<in> ?R. valid_ref base sz q\<close>
  from Cons.prems(3) have rR: "r \<in> ?R" and rsR: "set rs \<subseteq> ?R" by simp_all
  have sub: "reachable base m0 [r] \<subseteq> ?R" using rR by (intro reachable_subset) simp
  from inv have mk: "marks base sz m0 (snd s) (fst s)" and tR: "set (snd s) \<subseteq> ?R"
    and mR: "marked base sz (fst s) \<inter> ?R = set (snd s)"
    and cl: "\<forall>a \<in> set (snd s). otype (m0 (cell_index base a)) = OBJ_PAIR \<longrightarrow>
           head (m0 (cell_index base a)) \<in> set (snd s) \<and> tail (m0 (cell_index base a)) \<in> set (snd s)"
    unfolding mark_inv_def by simp_all
  have g: "same_graph m0 (fst s)"
    using marks_same_graph[OF mk] by (simp add: same_graph_def)
  from mark_spec[OF g, of base r sz] W sub
  obtain s1 ext where r1: "mark base sz s r = Inr s1" and g1: "mark_good base sz m0 s s1 r ext"
    by blast
  from g1 have t1: "snd s1 = snd s @ ext" and mk1: "marks base sz (fst s) ext (fst s1)"
    and rm: "r \<in> marked base sz (fst s1)"
    and d1: "set ext \<inter> marked base sz (fst s) = {}"
    and e1: "set ext \<subseteq> reachable base m0 [r]"
    and ch: "\<forall>a \<in> set ext. otype (m0 (cell_index base a)) = OBJ_PAIR \<longrightarrow>
           head (m0 (cell_index base a)) \<in> marked base sz (fst s1)
           \<and> tail (m0 (cell_index base a)) \<in> marked base sz (fst s1)"
    unfolding mark_good_def by simp_all
  have md1: "marked base sz (fst s1) = marked base sz (fst s) \<union> set ext"
    using mk1 by (rule marks_marked)
  have dis: "set (snd s) \<inter> set ext = {}" using d1 mR by blast
  have eR: "set ext \<subseteq> ?R" using e1 sub by blast
  have mR1: "marked base sz (fst s1) \<inter> ?R = set (snd s1)"
    using md1 mR eR t1 by auto
  have inv1: "mark_inv base sz m0 ?R s1"
    unfolding mark_inv_def
  proof (intro conjI)
    show "marks base sz m0 (snd s1) (fst s1)"
      using marks_append[OF mk mk1 dis] t1 by simp
    show "set (snd s1) \<subseteq> ?R" using tR eR t1 by simp
    show "marked base sz (fst s1) \<inter> ?R = set (snd s1)" by (rule mR1)
    show "\<forall>a \<in> set (snd s1). otype (m0 (cell_index base a)) = OBJ_PAIR \<longrightarrow>
           head (m0 (cell_index base a)) \<in> set (snd s1) \<and> tail (m0 (cell_index base a)) \<in> set (snd s1)"
    proof (intro ballI impI)
      fix a assume a: "a \<in> set (snd s1)" and pr: "otype (m0 (cell_index base a)) = OBJ_PAIR"
      show "head (m0 (cell_index base a)) \<in> set (snd s1) \<and> tail (m0 (cell_index base a)) \<in> set (snd s1)"
      proof (cases "a \<in> set (snd s)")
        case True
        with cl pr t1 show ?thesis by simp
      next
        case False
        with a t1 have ae: "a \<in> set ext" by simp
        then have aR: "a \<in> ?R" using eR by blast
        have "head (m0 (cell_index base a)) \<in> ?R" "tail (m0 (cell_index base a)) \<in> ?R"
          using aR pr by (auto intro: reachable.head reachable.tail)
        with ch ae pr mR1 show ?thesis by blast
      qed
    qed
  qed
  from Cons.IH[OF inv1 W rsR]
  obtain s' where r': "markAll_loop base sz s1 rs = Inr s'"
    and inv': "mark_inv base sz m0 ?R s'"
    and in': "set rs \<subseteq> set (snd s')" "set (snd s1) \<subseteq> set (snd s')"
    by blast
  have "r \<in> set (snd s1)" using rm rR mR1 by blast
  with r1 r' inv' in' t1 show ?case by auto
qed


lemma mark_marked_noop:
  "valid_ref base sz p \<Longrightarrow> moveTo (fst s (cell_index base p)) \<noteq> 0 \<Longrightarrow> mark base sz s p = Inr s"
  by (simp add: mark.simps)

text \<open>
  C5. When every cell reachable from the root stack lies in the heap block and is
  unmarked, as it is outside a collection, the mark phase returns, on any graph, cyclic
  or not: \<open>markAll\<close> yields the heap with exactly the reachable cells marked
  (each with its own address) and all other cells untouched, and the assignment
  \<open>object->moveTo = object\<close> is executed exactly once for each reachable cell and
  for no other (the trace is duplicate-free and its set is the reachable set). A call
  of \<open>mark\<close> on a cell that is already marked returns at once with the state unchanged.
  \<open>mark\<close> itself is a total function: its recursion is well-founded because every
  recursive call is made with one more cell marked.
\<close>

theorem markAll_marks_reachable_once:
  assumes "\<forall>p \<in> reachable (heap vm) (mem vm) (stack vm).
             valid_ref (heap vm) (cap vm) p \<and> moveTo (mem vm (cell_index (heap vm) p)) = 0"
  shows "\<exists>m' tr. markAll_loop (heap vm) (cap vm) (mem vm, []) (stack vm) = Inr (m', tr)
     \<and> markAll vm = Inr (vm\<lparr>mem := m'\<rparr>)
     \<and> distinct tr \<and> set tr = reachable (heap vm) (mem vm) (stack vm)
     \<and> (\<forall>p \<in> set tr. m' (cell_index (heap vm) p) = (mem vm (cell_index (heap vm) p))\<lparr>moveTo := p\<rparr>)
     \<and> (\<forall>i. i \<notin> cell_index (heap vm) ` set tr \<longrightarrow> m' i = mem vm i)
     \<and> (\<forall>s p. valid_ref (heap vm) (cap vm) p \<and> moveTo (fst s (cell_index (heap vm) p)) \<noteq> 0 \<longrightarrow>
           mark (heap vm) (cap vm) s p = Inr s)"
proof -
  let ?R = "reachable (heap vm) (mem vm) (stack vm)"
  have W: "\<forall>q \<in> ?R. valid_ref (heap vm) (cap vm) q" using assms by blast
  have "marked (heap vm) (cap vm) (mem vm) \<inter> ?R = {}" using assms by (auto simp: marked_def)
  then have inv: "mark_inv (heap vm) (cap vm) (mem vm) ?R (mem vm, [])"
    by (simp add: mark_inv_def marks_Nil)
  have roots: "set (stack vm) \<subseteq> ?R" by (auto intro: reachable.root)
  from markAll_loop_spec[OF inv W roots]
  obtain s' where r: "markAll_loop (heap vm) (cap vm) (mem vm, []) (stack vm) = Inr s'"
    and inv': "mark_inv (heap vm) (cap vm) (mem vm) ?R s'"
    and in': "set (stack vm) \<subseteq> set (snd s')" by blast
  from inv' have mk: "marks (heap vm) (cap vm) (mem vm) (snd s') (fst s')"
    and sub: "set (snd s') \<subseteq> ?R"
    and cl: "\<forall>a \<in> set (snd s'). otype (mem vm (cell_index (heap vm) a)) = OBJ_PAIR \<longrightarrow>
           head (mem vm (cell_index (heap vm) a)) \<in> set (snd s')
           \<and> tail (mem vm (cell_index (heap vm) a)) \<in> set (snd s')"
    unfolding mark_inv_def by simp_all
  have "?R \<subseteq> set (snd s')" using in' cl by (intro reachable_closed) auto
  with sub have eq: "set (snd s') = ?R" by blast
  have "markAll vm = Inr (vm\<lparr>mem := fst s'\<rparr>)" using r by (simp add: markAll_def)
  moreover have "markAll_loop (heap vm) (cap vm) (mem vm, []) (stack vm) = Inr (fst s', snd s')"
    using r by simp
  ultimately show ?thesis
    using mk eq mark_marked_noop unfolding marks_def by blast
qed


theorem markAll_marks_reachable_once_witness:
  "\<exists>vm. test4_setup inplace (newVMr 4096 junk0) = Inr vm
     \<and> reachable (heap vm) (mem vm) (stack vm) = {4096, 4160, 4192, 4256}
     \<and> tail (mem vm (cell_index (heap vm) 4160)) = 4256
     \<and> tail (mem vm (cell_index (heap vm) 4256)) = 4160
     \<and> (\<forall>p \<in> reachable (heap vm) (mem vm) (stack vm).
             valid_ref (heap vm) (cap vm) p \<and> moveTo (mem vm (cell_index (heap vm) p)) = 0)
     \<and> (\<exists>m' tr. markAll_loop (heap vm) (cap vm) (mem vm, []) (stack vm) = Inr (m', tr)
           \<and> markAll vm = Inr (vm\<lparr>mem := m'\<rparr>)
           \<and> distinct tr \<and> set tr = {4096, 4160, 4192, 4256})"
proof -
  have "case test4_setup inplace (newVMr 4096 junk0) of Inl e \<Rightarrow> False | Inr vm \<Rightarrow>
      stack vm = [4160, 4256] \<and> heap vm = 4096 \<and> cap vm = 224
      \<and> mem vm 0 = \<lparr>otype = OBJ_INT, moveTo = 0, ivalue = 1, head = 0, tail = 0\<rparr>
      \<and> mem vm 2 = \<lparr>otype = OBJ_PAIR, moveTo = 0, ivalue = 0, head = 4096, tail = 4256\<rparr>
      \<and> mem vm 3 = \<lparr>otype = OBJ_INT, moveTo = 0, ivalue = 3, head = 0, tail = 0\<rparr>
      \<and> mem vm 5 = \<lparr>otype = OBJ_PAIR, moveTo = 0, ivalue = 0, head = 4192, tail = 4160\<rparr>"
    by (simp add: eval_defs)
  then obtain vm where a: "test4_setup inplace (newVMr 4096 junk0) = Inr vm"
    and f: "stack vm = [4160, 4256]" "heap vm = 4096" "cap vm = 224"
    and c: "mem vm 0 = \<lparr>otype = OBJ_INT, moveTo = 0, ivalue = 1, head = 0, tail = 0\<rparr>"
      "mem vm 2 = \<lparr>otype = OBJ_PAIR, moveTo = 0, ivalue = 0, head = 4096, tail = 4256\<rparr>"
      "mem vm 3 = \<lparr>otype = OBJ_INT, moveTo = 0, ivalue = 3, head = 0, tail = 0\<rparr>"
      "mem vm 5 = \<lparr>otype = OBJ_PAIR, moveTo = 0, ivalue = 0, head = 4192, tail = 4160\<rparr>"
    by (cases "test4_setup inplace (newVMr 4096 junk0)") auto
  have i: "cell_index 4096 4096 = 0" "cell_index 4096 4160 = 2" "cell_index 4096 4192 = 3"
    "cell_index 4096 4256 = 5"
    by (simp_all add: cell_index_def sizeof_Object_def)
  let ?R = "reachable (heap vm) (mem vm) (stack vm)"
  have "?R \<subseteq> {4096, 4160, 4192, 4256}"
    by (rule reachable_closed) (auto simp: f c i)
  moreover have "4160 \<in> ?R" "4256 \<in> ?R" by (simp_all add: f reachable.root)
  moreover have "4096 \<in> ?R"
    using reachable.head[OF \<open>4160 \<in> ?R\<close>] by (simp add: f c i)
  moreover have "4192 \<in> ?R"
    using reachable.head[OF \<open>4256 \<in> ?R\<close>] by (simp add: f c i)
  ultimately have R: "?R = {4096, 4160, 4192, 4256}" by blast
  have h: "\<forall>p \<in> ?R. valid_ref (heap vm) (cap vm) p \<and> moveTo (mem vm (cell_index (heap vm) p)) = 0"
    unfolding R by (simp add: f c i valid_ref_def sizeof_Object_def)
  from markAll_marks_reachable_once[OF h] R
  have "\<exists>m' tr. markAll_loop (heap vm) (cap vm) (mem vm, []) (stack vm) = Inr (m', tr)
           \<and> markAll vm = Inr (vm\<lparr>mem := m'\<rparr>)
           \<and> distinct tr \<and> set tr = {4096, 4160, 4192, 4256}"
    by auto
  moreover have "tail (mem vm (cell_index (heap vm) 4160)) = 4256"
    "tail (mem vm (cell_index (heap vm) 4256)) = 4160" by (simp_all add: f c i)
  ultimately show ?thesis using a R h by blast
qed


section \<open>The collector of the fixed-heap variant\<close>

lemma walk_total_aux:
  assumes v: "\<forall>k < scanned base nxt. valid_ref base sz (base + sizeof_Object * k)"
    and step: "\<And>k s. P k s \<Longrightarrow> k < scanned base nxt \<Longrightarrow> \<exists>s1. body s k = Inr s1 \<and> P (Suc k) s1"
  shows "k \<le> scanned base nxt \<Longrightarrow> d = scanned base nxt - k \<Longrightarrow> P k s \<Longrightarrow>
     \<exists>s'. walk base sz nxt body s (base + sizeof_Object * k) = Inr s' \<and> P (scanned base nxt) s'"
proof (induction d arbitrary: k s)
  case 0
  then have k: "k = scanned base nxt" by simp
  then have "\<not> base + sizeof_Object * k < nxt" by (simp add: scanned_less)
  then show ?case using 0(3) k by (simp add: walk_stop)
next
  case (Suc d)
  then have k: "k < scanned base nxt" by simp
  then have lt: "base + sizeof_Object * k < nxt" by (simp add: scanned_less)
  from v k have vk: "valid_ref base sz (base + sizeof_Object * k)" by simp
  from step[OF Suc(4) k] obtain s1 where b: "body s k = Inr s1" and P1: "P (Suc k) s1" by blast
  have w: "walk base sz nxt body s (base + sizeof_Object * k)
         = walk base sz nxt body s1 (base + sizeof_Object * Suc k)"
    using walk_step[OF lt vk, of body s s1] b by (simp add: ac_simps)
  from Suc(1)[of "Suc k" s1] k Suc(3) P1 w show ?case by simp
qed

lemma walk_total:
  assumes "\<forall>k < scanned base nxt. valid_ref base sz (base + sizeof_Object * k)"
    and "P 0 s"
    and "\<And>k s. P k s \<Longrightarrow> k < scanned base nxt \<Longrightarrow> \<exists>s1. body s k = Inr s1 \<and> P (Suc k) s1"
  shows "\<exists>s'. walk base sz nxt body s base = Inr s' \<and> P (scanned base nxt) s'"
proof -
  have "\<exists>s'. walk base sz nxt body s (base + sizeof_Object * 0) = Inr s' \<and> P (scanned base nxt) s'"
    by (rule walk_total_aux[where P = P and d = "scanned base nxt"]) (use assms in auto)
  then show ?thesis by simp
qed

lemma valid_ref_cell:
  "valid_ref base sz p \<longleftrightarrow> p \<noteq> 0 \<and> (\<exists>i < ncells sz. p = base + sizeof_Object * i)"
proof
  assume v: "valid_ref base sz p"
  then have "p = base + sizeof_Object * cell_index base p"
    unfolding valid_ref_def cell_index_def sizeof_Object_def by auto
  with v valid_ref_index[OF v] show "p \<noteq> 0 \<and> (\<exists>i < ncells sz. p = base + sizeof_Object * i)"
    by (auto simp: valid_ref_def)
next
  assume "p \<noteq> 0 \<and> (\<exists>i < ncells sz. p = base + sizeof_Object * i)"
  then obtain i where "p \<noteq> 0" "i < ncells sz" "p = base + sizeof_Object * i" by blast
  then show "valid_ref base sz p"
    unfolding valid_ref_def ncells_def sizeof_Object_def by auto
qed

lemma in_heap_cell:
  assumes "wf_vm vm"
  shows "in_heap vm p \<longleftrightarrow> (\<exists>i < scanned (heap vm) (nextp vm). p = heap vm + sizeof_Object * i)"
proof
  assume "in_heap vm p"
  then have v: "valid_ref (heap vm) (cap vm) p" and lt: "p < nextp vm" by (simp_all add: in_heap_def)
  from v obtain i where i: "p = heap vm + sizeof_Object * i" by (auto simp: valid_ref_cell)
  with lt have "i < scanned (heap vm) (nextp vm)" by (simp add: scanned_less)
  with i show "\<exists>i < scanned (heap vm) (nextp vm). p = heap vm + sizeof_Object * i" by blast
next
  assume "\<exists>i < scanned (heap vm) (nextp vm). p = heap vm + sizeof_Object * i"
  then obtain i where i: "i < scanned (heap vm) (nextp vm)" "p = heap vm + sizeof_Object * i" by blast
  then have "p < nextp vm" by (simp add: scanned_less)
  moreover have "i < ncells (cap vm)" "p \<noteq> 0" using i assms unfolding wf_vm_def by auto
  then have "valid_ref (heap vm) (cap vm) p"
    using i(2) unfolding valid_ref_cell by blast
  ultimately show "in_heap vm p" by (simp add: in_heap_def)
qed

lemma wf_reachable_in_heap:
  assumes "wf_vm vm" "p \<in> reachable (heap vm) (mem vm) (stack vm)"
  shows "in_heap vm p"
proof -
  have "reachable (heap vm) (mem vm) (stack vm) \<subseteq> {p. in_heap vm p}"
  proof (rule reachable_closed)
    show "set (stack vm) \<subseteq> {p. in_heap vm p}" using assms(1) by (auto simp: wf_vm_def)
  next
    fix p assume "p \<in> {p. in_heap vm p}" and pr: "otype (mem vm (cell_index (heap vm) p)) = OBJ_PAIR"
    then obtain i where "i < scanned (heap vm) (nextp vm)" "p = heap vm + sizeof_Object * i"
      using in_heap_cell[OF assms(1)] by blast
    with pr assms(1) show "head (mem vm (cell_index (heap vm) p)) \<in> {p. in_heap vm p}
        \<and> tail (mem vm (cell_index (heap vm) p)) \<in> {p. in_heap vm p}"
      by (simp add: wf_vm_def)
  qed
  with assms(2) show ?thesis by blast
qed

lemma calculateNewLocations_total:
  assumes "\<forall>k < scanned base nxt. valid_ref base sz (base + sizeof_Object * k)"
  shows "walk base sz nxt calculateNewLocations_body (m, to0) base
     = Inr (planned to0 m (scanned base nxt), to0 + sizeof_Object * live_below m (scanned base nxt))"
proof -
  have "\<exists>s'. walk base sz nxt calculateNewLocations_body (m, to0) base = Inr s' \<and> True"
    by (rule walk_total[OF assms, where P = "\<lambda>k s. True"])
       (auto simp: calculateNewLocations_body_def Let_def)
  then show ?thesis using calculateNewLocations_walk by blast
qed

lemma updateStack_map:
  "\<forall>r \<in> set rs. valid_ref base sz r \<Longrightarrow>
     updateStack base sz m rs = Inr (map (\<lambda>r. moveTo (m (cell_index base r))) rs)"
  by (induction rs) auto

lemma fields_fwd_moveTo [simp]: "moveTo (fields_fwd base m k i) = moveTo (m i)"
  by (simp add: fields_fwd_def)

lemma fields_fwd_here [simp]: "fields_fwd base m k k = m k"
  by (simp add: fields_fwd_def)

lemma updateFields_total:
  assumes v: "\<forall>k < scanned base nxt. valid_ref base sz (base + sizeof_Object * k)"
    and f: "\<forall>i < scanned base nxt. moveTo (m i) \<noteq> 0 \<and> otype (m i) = OBJ_PAIR \<longrightarrow>
              valid_ref base sz (head (m i)) \<and> valid_ref base sz (tail (m i))"
  shows "walk base sz nxt (updateFields_body base sz) m base = Inr (fields_fwd base m (scanned base nxt))"
proof -
  let ?P = "\<lambda>k mk. mk = fields_fwd base m k"
  have "\<exists>m'. walk base sz nxt (updateFields_body base sz) m base = Inr m' \<and> ?P (scanned base nxt) m'"
  proof (rule walk_total[OF v, where P = ?P])
    show "?P 0 m" by (simp add: fields_fwd_def)
  next
    fix k mk
    assume P: "?P k mk" and k: "k < scanned base nxt"
    show "\<exists>m1. updateFields_body base sz mk k = Inr m1 \<and> ?P (Suc k) m1"
    proof (cases "moveTo (m k) \<noteq> 0 \<and> otype (m k) = OBJ_PAIR")
      case False
      then have "fields_fwd base m (Suc k) = fields_fwd base m k"
        by (auto simp: fields_fwd_def fun_eq_iff less_Suc_eq)
      with False P show ?thesis by (auto simp: updateFields_body_def)
    next
      case True
      with f k have vh: "valid_ref base sz (head (m k))" and vt: "valid_ref base sz (tail (m k))"
        by simp_all
      have "fields_fwd base m (Suc k)
          = (fields_fwd base m k)(k := (m k)\<lparr>head := moveTo (m (cell_index base (head (m k)))),
               tail := moveTo (m (cell_index base (tail (m k))))\<rparr>)"
        using True by (auto simp: fields_fwd_def fun_eq_iff less_Suc_eq)
      with True P vh vt show ?thesis
        by (simp add: updateFields_body_def Let_def)
    qed
  qed
  then show ?thesis by simp
qed

lemma compact_total:
  assumes v: "\<forall>k < scanned base nxt. valid_ref base sz (base + sizeof_Object * k)"
    and H: "\<forall>i < scanned base nxt. moveTo (m i) \<noteq> 0 \<longrightarrow>
              moveTo (m i) = base + sizeof_Object * r i \<and> r i \<le> i
              \<and> (\<forall>j < i. moveTo (m j) \<noteq> 0 \<longrightarrow> r j < r i)"
  shows "\<exists>m'. walk base sz nxt (compact_body base sz) m base = Inr m'
           \<and> (\<forall>i \<ge> scanned base nxt. m' i = m i)
           \<and> (\<forall>i < scanned base nxt. moveTo (m i) \<noteq> 0 \<longrightarrow> m' (r i) = (m i)\<lparr>moveTo := 0\<rparr>)"
proof -
  let ?P = "\<lambda>k mk. (\<forall>i \<ge> k. mk i = m i)
       \<and> (\<forall>i < k. moveTo (m i) \<noteq> 0 \<longrightarrow> mk (r i) = (m i)\<lparr>moveTo := 0\<rparr>)"
  show ?thesis
  proof (rule walk_total[OF v, where P = ?P])
    show "?P 0 m" by simp
  next
    fix k mk
    assume P: "?P k mk" and k: "k < scanned base nxt"
    from P have mk: "mk k = m k" by simp
    show "\<exists>m1. compact_body base sz mk k = Inr m1 \<and> ?P (Suc k) m1"
    proof (cases "moveTo (m k) \<noteq> 0")
      case False
      with P mk show ?thesis
        by (auto simp: compact_body_def less_Suc_eq)
    next
      case True
      with H k have to: "moveTo (m k) = base + sizeof_Object * r k" and rk: "r k \<le> k"
        and ord: "\<forall>j < k. moveTo (m j) \<noteq> 0 \<longrightarrow> r j < r k" by simp_all
      from rk k v have vt: "valid_ref base sz (base + sizeof_Object * r k)" by simp
      let ?m1 = "mk(r k := (m k)\<lparr>moveTo := 0\<rparr>)"
      have b: "compact_body base sz mk k = Inr ?m1"
        using True mk to vt by (simp add: compact_body_def Let_def)
      have "?P (Suc k) ?m1"
      proof (intro conjI allI impI)
        fix i assume "Suc k \<le> i"
        with rk P show "?m1 i = m i" by simp
      next
        fix i assume i: "i < Suc k" and mi: "moveTo (m i) \<noteq> 0"
        show "?m1 (r i) = (m i)\<lparr>moveTo := 0\<rparr>"
        proof (cases "i = k")
          case True
          then show ?thesis by simp
        next
          case False
          with i have "i < k" by simp
          with ord mi P show ?thesis by auto
        qed
      qed
      with b show ?thesis by blast
    qed
  qed
qed

lemma wf_cells_valid:
  assumes "wf_vm vm"
  shows "\<forall>k < scanned (heap vm) (nextp vm). valid_ref (heap vm) (cap vm) (heap vm + sizeof_Object * k)"
proof (intro allI impI)
  fix k assume "k < scanned (heap vm) (nextp vm)"
  then have "in_heap vm (heap vm + sizeof_Object * k)"
    using in_heap_cell[OF assms] by blast
  then show "valid_ref (heap vm) (cap vm) (heap vm + sizeof_Object * k)" by (simp add: in_heap_def)
qed

lemma in_heap_index:
  assumes "wf_vm vm" "in_heap vm p"
  shows "cell_index (heap vm) p < scanned (heap vm) (nextp vm)"
    and "p = heap vm + sizeof_Object * cell_index (heap vm) p"
    and "valid_ref (heap vm) (cap vm) p"
  using assms in_heap_cell[OF assms(1), of p] by (auto simp: in_heap_def)

lemma gc_fixed_index:
  fixes vm :: VM
  assumes wf: "wf_vm vm"
  defines "R \<equiv> reachable (heap vm) (mem vm) (stack vm)"
    and "n \<equiv> scanned (heap vm) (nextp vm)"
  shows "\<exists>m1 m4.
      (\<forall>p \<in> R. m1 (cell_index (heap vm) p) = (mem vm (cell_index (heap vm) p))\<lparr>moveTo := p\<rparr>)
    \<and> (\<forall>i. i \<notin> cell_index (heap vm) ` R \<longrightarrow> m1 i = mem vm i)
    \<and> (\<forall>i < n. moveTo (m1 i) \<noteq> 0 \<longleftrightarrow> i \<in> cell_index (heap vm) ` R)
    \<and> gc vm = Inr (vm\<lparr>stack := map (\<lambda>r. moveTo (planned (heap vm) m1 n (cell_index (heap vm) r))) (stack vm),
                       mem := m4,
                       nextp := heap vm + sizeof_Object * live_below m1 n,
                       out := out vm @ [[sizeof_Object * live_below m1 n]]\<rparr>)
    \<and> (\<forall>i \<ge> n. m4 i = m1 i)
    \<and> (\<forall>i < n. moveTo (m1 i) \<noteq> 0 \<longrightarrow>
          m4 (live_below m1 i) = (fields_fwd (heap vm) (planned (heap vm) m1 n) n i)\<lparr>moveTo := 0\<rparr>)"
proof -
  let ?h = "heap vm" and ?c = "cap vm" and ?m = "mem vm"
  have Rin: "\<forall>p \<in> R. in_heap vm p" using wf_reachable_in_heap[OF wf] by (simp add: R_def)
  have hyp: "\<forall>p \<in> reachable ?h ?m (stack vm). valid_ref ?h ?c p \<and> moveTo (?m (cell_index ?h p)) = 0"
    using Rin in_heap_index[OF wf] wf unfolding R_def wf_vm_def by metis
  from markAll_marks_reachable_once[OF hyp] obtain m1 tr where
    ma: "markAll vm = Inr (vm\<lparr>mem := m1\<rparr>)" and tr: "set tr = R"
    and c1: "\<forall>p \<in> set tr. m1 (cell_index ?h p) = (?m (cell_index ?h p))\<lparr>moveTo := p\<rparr>"
    and f1: "\<forall>i. i \<notin> cell_index ?h ` set tr \<longrightarrow> m1 i = ?m i"
    unfolding R_def by blast
  have v: "\<forall>k < scanned ?h (nextp vm). valid_ref ?h ?c (?h + sizeof_Object * k)"
    by (rule wf_cells_valid[OF wf])
  \<comment> \<open>which cells are marked\<close>
  have mk: "moveTo (m1 i) \<noteq> 0 \<longleftrightarrow> i \<in> cell_index ?h ` R" if "i < n" for i
  proof (cases "i \<in> cell_index ?h ` R")
    case True
    then obtain p where p: "p \<in> R" "i = cell_index ?h p" by blast
    with Rin have "p \<noteq> 0" by (auto simp: in_heap_def valid_ref_def)
    with p c1 tr True show ?thesis by simp
  next
    case False
    with f1 tr have "m1 i = ?m i" by simp
    with False that wf show ?thesis by (simp add: wf_vm_def n_def)
  qed
  have same: "otype (m1 i) = otype (?m i) \<and> head (m1 i) = head (?m i) \<and> tail (m1 i) = tail (?m i)" for i
  proof (cases "i \<in> cell_index ?h ` R")
    case True
    then obtain p where "p \<in> R" "i = cell_index ?h p" by blast
    with c1 tr show ?thesis by simp
  next
    case False
    with f1 tr show ?thesis by simp
  qed
  \<comment> \<open>planning\<close>
  let ?m2 = "planned ?h m1 n"
  let ?L = "live_below m1 n"
  have cn: "calculateNewLocations (vm\<lparr>mem := m1\<rparr>) = Inr (vm\<lparr>mem := ?m2\<rparr>, ?h + sizeof_Object * ?L)"
    using calculateNewLocations_total[OF v, of m1 ?h]
    by (simp add: calculateNewLocations_def n_def)
  have same2: "otype (?m2 i) = otype (?m i) \<and> head (?m2 i) = head (?m i) \<and> tail (?m2 i) = tail (?m i)" for i
    using same[of i] by (simp add: planned_def)
  \<comment> \<open>pointer update\<close>
  have vs: "\<forall>r \<in> set (stack vm). valid_ref ?h ?c r"
    using wf by (simp add: wf_vm_def in_heap_def)
  have fv: "\<forall>i < scanned ?h (nextp vm). moveTo (?m2 i) \<noteq> 0 \<and> otype (?m2 i) = OBJ_PAIR \<longrightarrow>
              valid_ref ?h ?c (head (?m2 i)) \<and> valid_ref ?h ?c (tail (?m2 i))"
    using wf same2 by (simp add: wf_vm_def in_heap_def)
  let ?m3 = "fields_fwd ?h ?m2 n"
  let ?st = "map (\<lambda>r. moveTo (?m2 (cell_index ?h r))) (stack vm)"
  have up: "updateAllObjectPointers (vm\<lparr>mem := ?m2\<rparr>) = Inr (vm\<lparr>stack := ?st, mem := ?m3\<rparr>)"
    using updateStack_map[OF vs, of ?m2] updateFields_total[OF v fv]
    by (simp add: updateAllObjectPointers_def n_def)
  \<comment> \<open>the slide\<close>
  have H: "\<forall>i < scanned ?h (nextp vm). moveTo (?m3 i) \<noteq> 0 \<longrightarrow>
              moveTo (?m3 i) = ?h + sizeof_Object * live_below m1 i \<and> live_below m1 i \<le> i
              \<and> (\<forall>j < i. moveTo (?m3 j) \<noteq> 0 \<longrightarrow> live_below m1 j < live_below m1 i)"
  proof (intro allI impI)
    fix i assume i: "i < scanned ?h (nextp vm)" and nz: "moveTo (?m3 i) \<noteq> 0"
    have pl: "moveTo (?m3 j) \<noteq> 0 \<Longrightarrow> moveTo (m1 j) \<noteq> 0" for j
      by (auto simp: planned_def split: if_splits)
    from nz i have "moveTo (?m3 i) = ?h + sizeof_Object * live_below m1 i"
      by (auto simp: planned_def n_def split: if_splits)
    moreover have "live_below m1 i \<le> i" by (rule live_below_le)
    moreover have "\<forall>j < i. moveTo (?m3 j) \<noteq> 0 \<longrightarrow> live_below m1 j < live_below m1 i"
      using pl live_below_strict[of _ i m1] by blast
    ultimately show "moveTo (?m3 i) = ?h + sizeof_Object * live_below m1 i \<and> live_below m1 i \<le> i
              \<and> (\<forall>j < i. moveTo (?m3 j) \<noteq> 0 \<longrightarrow> live_below m1 j < live_below m1 i)" by blast
  qed
  from compact_total[OF v H] obtain m4 where
    w4: "walk ?h ?c (nextp vm) (compact_body ?h ?c) ?m3 ?h = Inr m4"
    and b4: "\<forall>i \<ge> scanned ?h (nextp vm). m4 i = ?m3 i"
    and c4: "\<forall>i < scanned ?h (nextp vm). moveTo (?m3 i) \<noteq> 0 \<longrightarrow> m4 (live_below m1 i) = (?m3 i)\<lparr>moveTo := 0\<rparr>"
    by blast
  have cp: "compact (vm\<lparr>stack := ?st, mem := ?m3\<rparr>) = Inr (vm\<lparr>stack := ?st, mem := m4\<rparr>)"
    using w4 by (simp add: compact_def)
  have g: "gc vm = Inr (vm\<lparr>stack := ?st, mem := m4, nextp := ?h + sizeof_Object * ?L,
                       out := out vm @ [[sizeof_Object * ?L]]\<rparr>)"
    using ma cn up cp by (simp add: gc_def)
  have hz: "?h \<noteq> 0" using wf by (simp add: wf_vm_def)
  have nz3: "moveTo (?m3 i) \<noteq> 0" if "i < n" "moveTo (m1 i) \<noteq> 0" for i
    using that hz by (simp add: planned_def)
  have "\<forall>i \<ge> n. m4 i = m1 i"
    using b4 by (simp add: n_def fields_fwd_def planned_def)
  moreover have "\<forall>i < n. moveTo (m1 i) \<noteq> 0 \<longrightarrow> m4 (live_below m1 i) = (?m3 i)\<lparr>moveTo := 0\<rparr>"
    using c4 nz3 by (simp add: n_def)
  ultimately show ?thesis using c1 f1 tr g mk by blast
qed

lemma live_below_card:
  fixes vm :: "'a VM_scheme"
  assumes wf: "wf_vm vm"
    and mk: "\<forall>j < scanned (heap vm) (nextp vm).
               moveTo (m1 j) \<noteq> 0 \<longleftrightarrow> j \<in> cell_index (heap vm) ` reachable (heap vm) (mem vm) (stack vm)"
    and i: "i \<le> scanned (heap vm) (nextp vm)"
  shows "live_below m1 i
     = card {q \<in> reachable (heap vm) (mem vm) (stack vm). q < heap vm + sizeof_Object * i}"
proof -
  let ?R = "reachable (heap vm) (mem vm) (stack vm)"
  let ?Q = "{q \<in> ?R. q < heap vm + sizeof_Object * i}"
  have Rin: "\<forall>p \<in> ?R. in_heap vm p" using wf_reachable_in_heap[OF wf] by simp
  have inj: "inj_on (cell_index (heap vm)) ?Q"
    using Rin valid_ref_inj[of "heap vm" "cap vm"] by (auto simp: inj_on_def in_heap_def)
  have "{j. j < i \<and> moveTo (m1 j) \<noteq> 0} = cell_index (heap vm) ` ?Q"
  proof (intro equalityI subsetI)
    fix j assume "j \<in> {j. j < i \<and> moveTo (m1 j) \<noteq> 0}"
    then have j: "j < i" "moveTo (m1 j) \<noteq> 0" by simp_all
    with i mk obtain q where q: "q \<in> ?R" "j = cell_index (heap vm) q" by auto
    with Rin in_heap_index(2)[OF wf, of q] have "q = heap vm + sizeof_Object * j" by simp
    with j(1) have "q < heap vm + sizeof_Object * i" by (simp add: sizeof_Object_def)
    with q show "j \<in> cell_index (heap vm) ` ?Q" by blast
  next
    fix j assume "j \<in> cell_index (heap vm) ` ?Q"
    then obtain q where q: "q \<in> ?R" "q < heap vm + sizeof_Object * i" "j = cell_index (heap vm) q"
      by blast
    with Rin in_heap_index[OF wf, of q] have qj: "q = heap vm + sizeof_Object * j"
      and jn: "j < scanned (heap vm) (nextp vm)" by simp_all
    from qj q(2) have "j < i" by (simp add: sizeof_Object_def)
    moreover from jn mk q have "moveTo (m1 j) \<noteq> 0" by blast
    ultimately show "j \<in> {j. j < i \<and> moveTo (m1 j) \<noteq> 0}" by simp
  qed
  then show ?thesis using card_image[OF inj] by (simp add: live_below_def)
qed

lemma reachable_below_frontier:
  fixes vm :: "'a VM_scheme"
  assumes wf: "wf_vm vm"
  shows "{q \<in> reachable (heap vm) (mem vm) (stack vm).
          q < heap vm + sizeof_Object * scanned (heap vm) (nextp vm)}
         = reachable (heap vm) (mem vm) (stack vm)"
  using wf_reachable_in_heap[OF wf] wf by (auto simp: in_heap_def wf_vm_def)

text \<open>
  A collection of the fixed-heap variant, from a well-formed VM, returns and slides the
  reachable cells to the bottom of the heap in address order, with every root and every
  field of a surviving pair forwarded.
\<close>

theorem gc_fixed_correct:
  fixes vm :: VM
  assumes wf: "wf_vm vm"
  shows "\<exists>vm'. gc vm = Inr vm' \<and> gc_post vm vm'"
proof -
  let ?h = "heap vm" and ?m = "mem vm"
  let ?R = "reachable ?h ?m (stack vm)"
  let ?n = "scanned ?h (nextp vm)"
  from gc_fixed_index[OF wf] obtain m1 m4 where
    c1: "\<forall>p \<in> ?R. m1 (cell_index ?h p) = (?m (cell_index ?h p))\<lparr>moveTo := p\<rparr>"
    and f1: "\<forall>i. i \<notin> cell_index ?h ` ?R \<longrightarrow> m1 i = ?m i"
    and mk: "\<forall>i < ?n. moveTo (m1 i) \<noteq> 0 \<longleftrightarrow> i \<in> cell_index ?h ` ?R"
    and g: "gc vm = Inr (vm\<lparr>stack := map (\<lambda>r. moveTo (planned ?h m1 ?n (cell_index ?h r))) (stack vm),
                       mem := m4,
                       nextp := ?h + sizeof_Object * live_below m1 ?n,
                       out := out vm @ [[sizeof_Object * live_below m1 ?n]]\<rparr>)"
    and b4: "\<forall>i \<ge> ?n. m4 i = m1 i"
    and c4: "\<forall>i < ?n. moveTo (m1 i) \<noteq> 0 \<longrightarrow>
          m4 (live_below m1 i) = (fields_fwd ?h (planned ?h m1 ?n) ?n i)\<lparr>moveTo := 0\<rparr>"
    by blast
  let ?vm' = "vm\<lparr>stack := map (\<lambda>r. moveTo (planned ?h m1 ?n (cell_index ?h r))) (stack vm),
                       mem := m4,
                       nextp := ?h + sizeof_Object * live_below m1 ?n,
                       out := out vm @ [[sizeof_Object * live_below m1 ?n]]\<rparr>"
  have Rin: "\<forall>p \<in> ?R. in_heap vm p" using wf_reachable_in_heap[OF wf] by simp
  have L: "live_below m1 ?n = card ?R"
    using live_below_card[OF wf mk, of ?n] reachable_below_frontier[OF wf] by simp
  \<comment> \<open>the planned address of a reachable cell is its forwarding address\<close>
  have fw: "moveTo (planned ?h m1 ?n (cell_index ?h p)) = forward vm p" if "p \<in> ?R" for p
  proof -
    from that Rin have ih: "in_heap vm p" by simp
    note ix = in_heap_index[OF wf ih]
    from ix(1) mk that have "moveTo (m1 (cell_index ?h p)) \<noteq> 0" by blast
    then have "moveTo (planned ?h m1 ?n (cell_index ?h p))
        = ?h + sizeof_Object * live_below m1 (cell_index ?h p)"
      using ix(1) by (simp add: planned_def)
    also have "live_below m1 (cell_index ?h p) = card {q \<in> ?R. q < ?h + sizeof_Object * cell_index ?h p}"
      using live_below_card[OF wf mk, of "cell_index ?h p"] ix(1) by simp
    also have "?h + sizeof_Object * cell_index ?h p = p" using ix(2) by simp
    finally show ?thesis by (simp add: forward_def)
  qed
  have roots: "set (stack vm) \<subseteq> ?R" by (auto intro: reachable.root)
  have st: "map (\<lambda>r. moveTo (planned ?h m1 ?n (cell_index ?h r))) (stack vm) = map (forward vm) (stack vm)"
    using roots fw by (intro map_cong) auto
  have cells: "m4 (cell_index ?h (forward vm p)) = relocate (forward vm) (?m (cell_index ?h p))"
    if p: "p \<in> ?R" for p
  proof -
    let ?i = "cell_index ?h p"
    from p Rin have ih: "in_heap vm p" by simp
    note ix = in_heap_index[OF wf ih]
    from ix(1) mk p have mi: "moveTo (m1 ?i) \<noteq> 0" by blast
    have pl: "moveTo (planned ?h m1 ?n ?i) = ?h + sizeof_Object * live_below m1 ?i"
      using mi ix(1) by (simp add: planned_def)
    with fw[OF p] have "forward vm p = ?h + sizeof_Object * live_below m1 ?i" by simp
    then have "cell_index ?h (forward vm p) = live_below m1 ?i" by (simp only: cell_index_cell)
    with c4 ix(1) mi have m4: "m4 (cell_index ?h (forward vm p))
        = (fields_fwd ?h (planned ?h m1 ?n) ?n ?i)\<lparr>moveTo := 0\<rparr>" by simp
    have m1i: "m1 ?i = (?m ?i)\<lparr>moveTo := p\<rparr>" using c1 p by simp
    define m2 where "m2 = planned ?h m1 ?n"
    have m2i: "m2 ?i = (?m ?i)\<lparr>moveTo := forward vm p\<rparr>"
      using mi ix(1) m1i fw[OF p] pl by (simp add: m2_def planned_def)
    have hz: "?h \<noteq> 0" using wf by (simp add: wf_vm_def)
    have nz: "moveTo (m2 ?i) \<noteq> 0" using pl hz by (simp add: m2_def)
    have m4': "m4 (cell_index ?h (forward vm p)) = (fields_fwd ?h m2 ?n ?i)\<lparr>moveTo := 0\<rparr>"
      using m4 by (simp add: m2_def)
    show ?thesis
    proof (cases "otype (?m ?i) = OBJ_PAIR")
      case False
      then have "fields_fwd ?h m2 ?n ?i = m2 ?i" using m2i by (simp add: fields_fwd_def)
      with False m4' m2i show ?thesis by (simp add: relocate_def)
    next
      case True
      then have "head (?m ?i) \<in> ?R" "tail (?m ?i) \<in> ?R"
        using p by (auto intro: reachable.head reachable.tail)
      with fw have F: "moveTo (m2 (cell_index ?h (head (?m ?i)))) = forward vm (head (?m ?i))"
        "moveTo (m2 (cell_index ?h (tail (?m ?i)))) = forward vm (tail (?m ?i))"
        by (simp_all add: m2_def)
      have "fields_fwd ?h m2 ?n ?i
          = (m2 ?i)\<lparr>head := moveTo (m2 (cell_index ?h (head (m2 ?i)))),
                     tail := moveTo (m2 (cell_index ?h (tail (m2 ?i))))\<rparr>"
        using True nz ix(1) m2i by (simp add: fields_fwd_def)
      also have "\<dots> = (?m ?i)\<lparr>moveTo := forward vm p, head := forward vm (head (?m ?i)),
                     tail := forward vm (tail (?m ?i))\<rparr>"
        using F by (simp add: m2i)
      finally show ?thesis using m4' True by (simp add: relocate_def)
    qed
  qed
  have beyond: "m4 i = ?m i" if "i \<ge> ?n" for i
  proof -
    have "i \<notin> cell_index ?h ` ?R" using that Rin in_heap_index(1)[OF wf] by fastforce
    with f1 b4 that show ?thesis by simp
  qed
  have "gc_post vm ?vm'"
    unfolding gc_post_def using L st cells beyond by simp
  with g show ?thesis by blast
qed

subsection \<open>Ranking the elements of a finite set of numbers\<close>

lemma rank_less:
  fixes R :: "nat set"
  assumes "finite R" "p \<in> R"
  shows "card {q \<in> R. q < p} < card R"
  using assms by (intro psubset_card_mono) auto

lemma rank_strict:
  fixes R :: "nat set"
  assumes "finite R" "p \<in> R" "p < p'"
  shows "card {q \<in> R. q < p} < card {q \<in> R. q < p'}"
  using assms by (intro psubset_card_mono) auto

lemma rank_inj:
  fixes R :: "nat set"
  assumes "finite R"
  shows "inj_on (\<lambda>p. card {q \<in> R. q < p}) R"
proof (rule inj_onI)
  fix p p' assume "p \<in> R" "p' \<in> R" and eq: "card {q \<in> R. q < p} = card {q \<in> R. q < p'}"
  then show "p = p'"
    using rank_strict[OF assms, of p p'] rank_strict[OF assms, of p' p]
    by (cases p p' rule: linorder_cases) auto
qed

lemma rank_image:
  fixes R :: "nat set"
  assumes "finite R"
  shows "(\<lambda>p. card {q \<in> R. q < p}) ` R = {..< card R}"
proof (rule card_subset_eq)
  show "finite {..< card R}" by simp
  show "(\<lambda>p. card {q \<in> R. q < p}) ` R \<subseteq> {..< card R}"
    using rank_less[OF assms] by auto
  show "card ((\<lambda>p. card {q \<in> R. q < p}) ` R) = card {..< card R}"
    using card_image[OF rank_inj[OF assms]] by simp
qed

lemma wf_reachable_finite:
  assumes "wf_vm vm"
  shows "finite (reachable (heap vm) (mem vm) (stack vm))"
proof (rule finite_subset)
  show "reachable (heap vm) (mem vm) (stack vm)
      \<subseteq> (\<lambda>i. heap vm + sizeof_Object * i) ` {..< scanned (heap vm) (nextp vm)}"
    using wf_reachable_in_heap[OF assms] in_heap_cell[OF assms] by auto
qed simp

lemma forward_range:
  assumes "wf_vm vm" "p \<in> reachable (heap vm) (mem vm) (stack vm)"
  shows "\<exists>j < card (reachable (heap vm) (mem vm) (stack vm)). forward vm p = heap vm + sizeof_Object * j"
  using rank_less[OF wf_reachable_finite[OF assms(1)] assms(2)] by (auto simp: forward_def)

lemma forward_surj:
  assumes "wf_vm vm" "j < card (reachable (heap vm) (mem vm) (stack vm))"
  shows "\<exists>p \<in> reachable (heap vm) (mem vm) (stack vm). forward vm p = heap vm + sizeof_Object * j"
proof -
  from assms(2) have "j \<in> (\<lambda>p. card {q \<in> reachable (heap vm) (mem vm) (stack vm). q < p})
       ` reachable (heap vm) (mem vm) (stack vm)"
    using rank_image[OF wf_reachable_finite[OF assms(1)]] by simp
  then show ?thesis by (auto simp: forward_def)
qed

lemma card_reachable_le:
  assumes "wf_vm vm"
  shows "card (reachable (heap vm) (mem vm) (stack vm)) \<le> scanned (heap vm) (nextp vm)"
proof -
  have "reachable (heap vm) (mem vm) (stack vm)
      \<subseteq> (\<lambda>i. heap vm + sizeof_Object * i) ` {..< scanned (heap vm) (nextp vm)}"
    using wf_reachable_in_heap[OF assms] in_heap_cell[OF assms] by auto
  then have "card (reachable (heap vm) (mem vm) (stack vm))
      \<le> card ((\<lambda>i. heap vm + sizeof_Object * i) ` {..< scanned (heap vm) (nextp vm)})"
    by (intro card_mono) auto
  also have "\<dots> \<le> card {..< scanned (heap vm) (nextp vm)}" by (rule card_image_le) simp
  finally show ?thesis by simp
qed

lemma gc_fixed_post:
  fixes vm :: VM
  assumes "wf_vm vm" "gc vm = Inr vm'"
  shows "gc_post vm vm'"
  using gc_fixed_correct[OF assms(1)] assms(2) by auto

lemma gc_post_liveCount:
  assumes "gc_post vm vm'"
  shows "liveCount vm' = card (reachable (heap vm) (mem vm) (stack vm))"
  using assms by (simp add: gc_post_def liveCount_def sizeof_Object_def)

lemma gc_post_cell:
  fixes vm :: VM
  assumes wf: "wf_vm vm" and post: "gc_post vm vm'"
    and j: "j < card (reachable (heap vm) (mem vm) (stack vm))"
  shows "\<exists>p \<in> reachable (heap vm) (mem vm) (stack vm).
           forward vm p = heap vm + sizeof_Object * j
           \<and> mem vm' j = relocate (forward vm) (mem vm (cell_index (heap vm) p))"
proof -
  from forward_surj[OF wf j] obtain p where p: "p \<in> reachable (heap vm) (mem vm) (stack vm)"
    and f: "forward vm p = heap vm + sizeof_Object * j" by blast
  from post p have "mem vm' (cell_index (heap vm) (forward vm p))
      = relocate (forward vm) (mem vm (cell_index (heap vm) p))"
    by (simp add: gc_post_def)
  with f p show ?thesis by auto
qed

lemma gc_post_in_heap:
  fixes vm :: VM
  assumes wf: "wf_vm vm" and post: "gc_post vm vm'"
    and p: "p \<in> reachable (heap vm) (mem vm) (stack vm)"
  shows "in_heap vm' (forward vm p)"
proof -
  from forward_range[OF wf p] obtain j where j: "j < card (reachable (heap vm) (mem vm) (stack vm))"
    and f: "forward vm p = heap vm + sizeof_Object * j" by blast
  have "j < ncells (cap vm)"
    using j card_reachable_le[OF wf] wf by (simp add: wf_vm_def)
  moreover have "heap vm \<noteq> 0" using wf by (simp add: wf_vm_def)
  ultimately have "valid_ref (heap vm) (cap vm) (forward vm p)"
    unfolding valid_ref_cell using f by auto
  moreover have "forward vm p < nextp vm'"
    using post f j by (simp add: gc_post_def sizeof_Object_def)
  ultimately show ?thesis using post by (simp add: in_heap_def gc_post_def)
qed

lemma gc_post_wf:
  fixes vm :: VM
  assumes wf: "wf_vm vm" and post: "gc_post vm vm'"
  shows "wf_vm vm'"
proof -
  let ?R = "reachable (heap vm) (mem vm) (stack vm)"
  from post have h: "heap vm' = heap vm" "cap vm' = cap vm"
    and n: "nextp vm' = heap vm + sizeof_Object * card ?R"
    and st: "stack vm' = map (forward vm) (stack vm)"
    by (simp_all add: gc_post_def)
  have sc: "scanned (heap vm') (nextp vm') = card ?R" using h n by simp
  have roots: "set (stack vm) \<subseteq> ?R" by (auto intro: reachable.root)
  show ?thesis
    unfolding wf_vm_def sc
  proof (intro conjI allI impI ballI)
    show "heap vm' \<noteq> 0" using wf h by (simp add: wf_vm_def)
    show "nextp vm' = heap vm' + sizeof_Object * card ?R" using h n by simp
    show "card ?R \<le> ncells (cap vm')"
      using card_reachable_le[OF wf] wf h by (simp add: wf_vm_def)
  next
    fix i assume "i < card ?R"
    from gc_post_cell[OF wf post this] show "moveTo (mem vm' i) = 0"
      by (auto simp: relocate_def)
  next
    fix r assume "r \<in> set (stack vm')"
    with st roots gc_post_in_heap[OF wf post] show "in_heap vm' r" by auto
  next
    fix i assume i: "i < card ?R" and pr: "otype (mem vm' i) = OBJ_PAIR"
    from gc_post_cell[OF wf post i] obtain p where p: "p \<in> ?R"
      and c: "mem vm' i = relocate (forward vm) (mem vm (cell_index (heap vm) p))" by blast
    from pr c have pp: "otype (mem vm (cell_index (heap vm) p)) = OBJ_PAIR"
      by (simp add: relocate_def split: if_splits)
    then have "head (mem vm (cell_index (heap vm) p)) \<in> ?R" "tail (mem vm (cell_index (heap vm) p)) \<in> ?R"
      using p by (auto intro: reachable.head reachable.tail)
    with gc_post_in_heap[OF wf post] c pp
    show "in_heap vm' (head (mem vm' i))" "in_heap vm' (tail (mem vm' i))"
      by (simp_all add: relocate_def)
  qed
qed

lemma relocate_id:
  assumes "moveTo c = 0" "otype c = OBJ_PAIR \<Longrightarrow> f (head c) = head c \<and> f (tail c) = tail c"
  shows "relocate f c = c"
  using assms by (simp add: relocate_def)

lemma forward_reachable:
  fixes vm :: VM
  assumes wf: "wf_vm vm" and post: "gc_post vm vm'"
    and p: "p \<in> reachable (heap vm) (mem vm) (stack vm)"
  shows "forward vm p \<in> reachable (heap vm') (mem vm') (stack vm')"
  using p
proof (induction rule: reachable.induct)
  case (root r)
  then have "forward vm r \<in> set (stack vm')" using post by (simp add: gc_post_def)
  then show ?case by (rule reachable.root)
next
  case (head p)
  from post head(1) have c: "mem vm' (cell_index (heap vm') (forward vm p))
      = relocate (forward vm) (mem vm (cell_index (heap vm) p))" by (simp add: gc_post_def)
  with head(2) have "otype (mem vm' (cell_index (heap vm') (forward vm p))) = OBJ_PAIR"
    and "head (mem vm' (cell_index (heap vm') (forward vm p))) = forward vm (head (mem vm (cell_index (heap vm) p)))"
    by (simp_all add: relocate_def)
  with reachable.head[OF head(3)] show ?case by simp
next
  case (tail p)
  from post tail(1) have c: "mem vm' (cell_index (heap vm') (forward vm p))
      = relocate (forward vm) (mem vm (cell_index (heap vm) p))" by (simp add: gc_post_def)
  with tail(2) have "otype (mem vm' (cell_index (heap vm') (forward vm p))) = OBJ_PAIR"
    and "tail (mem vm' (cell_index (heap vm') (forward vm p))) = forward vm (tail (mem vm (cell_index (heap vm) p)))"
    by (simp_all add: relocate_def)
  with reachable.tail[OF tail(3)] show ?case by simp
qed

lemma gc_post_all_reachable:
  fixes vm :: VM
  assumes wf: "wf_vm vm" and post: "gc_post vm vm'"
  shows "reachable (heap vm') (mem vm') (stack vm')
     = (\<lambda>j. heap vm' + sizeof_Object * j) ` {..< scanned (heap vm') (nextp vm')}"
proof -
  let ?R = "reachable (heap vm) (mem vm) (stack vm)"
  have wf': "wf_vm vm'" by (rule gc_post_wf[OF wf post])
  from post have h: "heap vm' = heap vm" and n: "nextp vm' = heap vm + sizeof_Object * card ?R"
    by (simp_all add: gc_post_def)
  have sc: "scanned (heap vm') (nextp vm') = card ?R" using h n by simp
  show ?thesis
  proof (intro equalityI subsetI)
    fix p assume "p \<in> reachable (heap vm') (mem vm') (stack vm')"
    then show "p \<in> (\<lambda>j. heap vm' + sizeof_Object * j) ` {..< scanned (heap vm') (nextp vm')}"
      using wf_reachable_in_heap[OF wf'] in_heap_cell[OF wf'] by auto
  next
    fix p assume "p \<in> (\<lambda>j. heap vm' + sizeof_Object * j) ` {..< scanned (heap vm') (nextp vm')}"
    then obtain j where j: "j < card ?R" "p = heap vm + sizeof_Object * j" using sc h by auto
    from forward_surj[OF wf j(1)] j(2) obtain q where "q \<in> ?R" "forward vm q = p" by auto
    with forward_reachable[OF wf post] show "p \<in> reachable (heap vm') (mem vm') (stack vm')" by blast
  qed
qed

lemma card_cells: "card ((\<lambda>j. (base::nat) + sizeof_Object * j) ` {..< n}) = n"
  by (subst card_image) (auto simp: inj_on_def sizeof_Object_def)

lemma forward_compacted:
  fixes vm :: "'a VM_scheme"
  assumes R: "reachable (heap vm) (mem vm) (stack vm)
     = (\<lambda>j. heap vm + sizeof_Object * j) ` {..< scanned (heap vm) (nextp vm)}"
    and j: "j < scanned (heap vm) (nextp vm)"
  shows "forward vm (heap vm + sizeof_Object * j) = heap vm + sizeof_Object * j"
proof -
  have "{q \<in> reachable (heap vm) (mem vm) (stack vm). q < heap vm + sizeof_Object * j}
      = (\<lambda>i. heap vm + sizeof_Object * i) ` {..< j}"
    unfolding R using j by (auto simp: sizeof_Object_def)
  then show ?thesis by (simp add: forward_def card_cells)
qed

text \<open>A second collection right after a collection changes nothing but the output.\<close>

theorem gc_fixed_twice:
  fixes vm :: VM
  assumes wf: "wf_vm vm" and g: "gc vm = Inr vm1"
  shows "gc vm1 = Inr (vm1\<lparr>out := out vm1 @ [[nextp vm1 - heap vm1]]\<rparr>)"
proof -
  have post: "gc_post vm vm1" by (rule gc_fixed_post[OF wf g])
  have wf1: "wf_vm vm1" by (rule gc_post_wf[OF wf post])
  let ?h = "heap vm1" and ?n = "scanned (heap vm1) (nextp vm1)"
  let ?R1 = "reachable (heap vm1) (mem vm1) (stack vm1)"
  have R1: "?R1 = (\<lambda>j. ?h + sizeof_Object * j) ` {..< ?n}"
    by (rule gc_post_all_reachable[OF wf post])
  have cR1: "card ?R1 = ?n" unfolding R1 by (rule card_cells)
  have n1: "nextp vm1 = ?h + sizeof_Object * ?n" using wf1 by (simp add: wf_vm_def)
  have fid: "forward vm1 p = p" if "in_heap vm1 p" for p
    using that in_heap_cell[OF wf1, of p] forward_compacted[OF R1] by auto
  from gc_fixed_correct[OF wf1] obtain vm2 where g2: "gc vm1 = Inr vm2" and post2: "gc_post vm1 vm2"
    by blast
  from post2 have f2: "heap vm2 = heap vm1" "cap vm2 = cap vm1"
    "nextp vm2 = ?h + sizeof_Object * card ?R1"
    "stack vm2 = map (forward vm1) (stack vm1)"
    "out vm2 = out vm1 @ [[sizeof_Object * card ?R1]]"
    and c2: "\<forall>p \<in> ?R1. mem vm2 (cell_index ?h (forward vm1 p)) = relocate (forward vm1) (mem vm1 (cell_index ?h p))"
    and b2: "\<forall>i \<ge> ?n. mem vm2 i = mem vm1 i"
    by (simp_all add: gc_post_def)
  have st: "stack vm2 = stack vm1"
  proof -
    have "map (forward vm1) (stack vm1) = map id (stack vm1)"
      using wf1 fid by (intro map_cong) (auto simp: wf_vm_def)
    with f2(4) show ?thesis by simp
  qed
  have mem: "mem vm2 i = mem vm1 i" for i
  proof (cases "i < ?n")
    case False
    with b2 show ?thesis by simp
  next
    case True
    let ?p = "?h + sizeof_Object * i"
    have pR: "?p \<in> ?R1" using True R1 by blast
    have ih: "in_heap vm1 ?p" using True in_heap_cell[OF wf1] by blast
    from c2 pR have "mem vm2 (cell_index ?h (forward vm1 ?p)) = relocate (forward vm1) (mem vm1 (cell_index ?h ?p))"
      by blast
    then have "mem vm2 i = relocate (forward vm1) (mem vm1 i)"
      unfolding fid[OF ih] by (simp only: cell_index_cell)
    also have "\<dots> = mem vm1 i"
    proof (rule relocate_id)
      show "moveTo (mem vm1 i) = 0" using wf1 True by (simp add: wf_vm_def)
      show "forward vm1 (head (mem vm1 i)) = head (mem vm1 i) \<and> forward vm1 (tail (mem vm1 i)) = tail (mem vm1 i)"
        if "otype (mem vm1 i) = OBJ_PAIR"
        using that wf1 True fid by (simp add: wf_vm_def)
    qed
    finally show ?thesis .
  qed
  have "vm2 = vm1\<lparr>out := out vm1 @ [[nextp vm1 - heap vm1]]\<rparr>"
    using f2 st mem cR1 n1 by (intro VM.equality) (auto simp: fun_eq_iff)
  with g2 show ?thesis by simp
qed

subsection \<open>Every state of the fixed-heap variant is well-formed\<close>

lemma newVM_wf: "base \<noteq> 0 \<Longrightarrow> wf_vm (newVM base junk)"
  by (simp add: wf_vm_def newVM_def scanned_def sizeof_Object_def)

lemma in_heap_grow:
  "in_heap vm p \<Longrightarrow> heap vm' = heap vm \<Longrightarrow> cap vm' = cap vm \<Longrightarrow> nextp vm \<le> nextp vm' \<Longrightarrow>
     in_heap vm' p"
  by (simp add: in_heap_def)

lemma pop_wf:
  assumes "wf_vm vm" "pop vm = Inr (vm', r)"
  shows "wf_vm vm'" and "in_heap vm r" and "stack vm = stack vm' @ [r]"
    and "heap vm' = heap vm" "cap vm' = cap vm" "nextp vm' = nextp vm" "mem vm' = mem vm"
proof -
  from assms(2) have s: "stack vm \<noteq> []" and vm': "vm' = vm\<lparr>stack := butlast (stack vm)\<rparr>"
    and r: "r = last (stack vm)" by (auto simp: pop_def split: if_splits)
  show "stack vm = stack vm' @ [r]" using s vm' r by simp
  show "in_heap vm r" using assms(1) s r by (simp add: wf_vm_def)
  show "heap vm' = heap vm" "cap vm' = cap vm" "nextp vm' = nextp vm" "mem vm' = mem vm"
    using vm' by simp_all
  have "set (butlast (stack vm)) \<subseteq> set (stack vm)" by (auto dest: in_set_butlastD)
  then show "wf_vm vm'" using assms(1) unfolding vm' wf_vm_def in_heap_def by auto
qed

lemma bump_wf:
  assumes wf: "wf_vm vm" and b: "bump vm ty = Inr (vm1, obj)"
  shows "obj = heap vm + sizeof_Object * scanned (heap vm) (nextp vm)"
    and "heap vm1 = heap vm" "cap vm1 = cap vm" "stack vm1 = stack vm" "out vm1 = out vm"
    and "nextp vm1 = heap vm + sizeof_Object * Suc (scanned (heap vm) (nextp vm))"
    and "mem vm1 = (mem vm)(scanned (heap vm) (nextp vm)
                     := (mem vm (scanned (heap vm) (nextp vm)))\<lparr>otype := ty, moveTo := 0\<rparr>)"
    and "Suc (scanned (heap vm) (nextp vm)) \<le> ncells (cap vm)"
proof -
  let ?n = "scanned (heap vm) (nextp vm)"
  from wf have n: "nextp vm = heap vm + sizeof_Object * ?n" by (simp add: wf_vm_def)
  from b have v: "valid_ref (heap vm) (cap vm) (nextp vm)" and o: "obj = nextp vm"
    and vm1: "vm1 = vm\<lparr>nextp := nextp vm + sizeof_Object,
                 mem := (mem vm)(cell_index (heap vm) (nextp vm)
                   := (mem vm (cell_index (heap vm) (nextp vm)))\<lparr>otype := ty, moveTo := 0\<rparr>)\<rparr>"
    by (auto simp: bump_def Let_def split: if_splits)
  have ci: "cell_index (heap vm) (nextp vm) = ?n" by (subst n) simp
  show "obj = heap vm + sizeof_Object * ?n" using o n by simp
  show "heap vm1 = heap vm" "cap vm1 = cap vm" "stack vm1 = stack vm" "out vm1 = out vm"
    using vm1 by simp_all
  show "nextp vm1 = heap vm + sizeof_Object * Suc ?n" unfolding vm1 using n by simp
  show "mem vm1 = (mem vm)(?n := (mem vm ?n)\<lparr>otype := ty, moveTo := 0\<rparr>)"
    unfolding vm1 by (simp add: ci)
  show "Suc ?n \<le> ncells (cap vm)" using valid_ref_index[OF v] ci by simp
qed


lemma sizeof_Object_pos [simp]: "0 < sizeof_Object"
  by (simp add: sizeof_Object_def)

lemma valid_ref_cellI:
  "base \<noteq> 0 \<Longrightarrow> i < ncells sz \<Longrightarrow> valid_ref base sz (base + sizeof_Object * i)"
  unfolding valid_ref_cell by blast

lemma alloc_wf:
  assumes wf: "wf_vm vm"
    and f: "heap vm' = heap vm" "cap vm' = cap vm"
      "nextp vm' = heap vm + sizeof_Object * Suc (scanned (heap vm) (nextp vm))"
      "Suc (scanned (heap vm) (nextp vm)) \<le> ncells (cap vm)"
    and m: "mem vm' = (mem vm)(scanned (heap vm) (nextp vm) := c)" "moveTo c = 0"
      "otype c = OBJ_PAIR \<Longrightarrow> in_heap vm (head c) \<and> in_heap vm (tail c)"
    and st: "\<forall>r \<in> set (stack vm'). in_heap vm r \<or> r = heap vm + sizeof_Object * scanned (heap vm) (nextp vm)"
  shows "wf_vm vm'"
proof -
  let ?n = "scanned (heap vm) (nextp vm)"
  have sc: "scanned (heap vm') (nextp vm') = Suc ?n"
    unfolding f(1) f(3) by (rule scanned_cells)
  from wf have n: "nextp vm = heap vm + sizeof_Object * ?n" and hz: "heap vm \<noteq> 0"
    by (simp_all add: wf_vm_def)
  have le: "nextp vm \<le> nextp vm'" using f(3) n by simp
  have grow: "in_heap vm p \<Longrightarrow> in_heap vm' p" for p
    using in_heap_grow[OF _ f(1) f(2) le] .
  have new: "in_heap vm' (heap vm + sizeof_Object * ?n)"
  proof -
    have "valid_ref (heap vm) (cap vm) (heap vm + sizeof_Object * ?n)"
      using f(4) hz by (intro valid_ref_cellI) simp_all
    then show ?thesis using f by (simp add: in_heap_def)
  qed
  show ?thesis
    unfolding wf_vm_def sc
  proof (intro conjI allI impI ballI)
    show "heap vm' \<noteq> 0" using hz f by simp
    show "nextp vm' = heap vm' + sizeof_Object * Suc ?n" using f by simp
    show "Suc ?n \<le> ncells (cap vm')" using f by simp
  next
    fix i assume "i < Suc ?n"
    then show "moveTo (mem vm' i) = 0" using wf m by (auto simp: wf_vm_def less_Suc_eq)
  next
    fix r assume "r \<in> set (stack vm')"
    with st grow new show "in_heap vm' r" by auto
  next
    fix i assume i: "i < Suc ?n" and pr: "otype (mem vm' i) = OBJ_PAIR"
    show "in_heap vm' (head (mem vm' i))" "in_heap vm' (tail (mem vm' i))"
      using i pr wf m grow by (auto simp: wf_vm_def less_Suc_eq split: if_splits)
  qed
qed

lemma newObject_cases:
  assumes wf: "wf_vm vm" and n: "newObject vm ty = Inr (vm1, obj)"
  obtains vm0 where "wf_vm vm0" "bump vm0 ty = Inr (vm1, obj)" "length (stack vm0) = length (stack vm)"
    "\<forall>r \<in> set (stack vm0). in_heap vm0 r"
proof (cases "nextp vm + sizeof_Object > heap vm + HEAP_SIZE")
  case False
  with n have "bump vm ty = Inr (vm1, obj)" by (simp add: newObject_def)
  with wf that[of vm] show ?thesis by (simp add: wf_vm_def)
next
  case True
  with n obtain vm0 where g: "gc vm = Inr vm0" and b: "bump vm0 ty = Inr (vm1, obj)"
    by (auto simp: newObject_def split: sum.splits if_splits)
  have wf0: "wf_vm vm0" using gc_post_wf[OF wf gc_fixed_post[OF wf g]] .
  moreover have "length (stack vm0) = length (stack vm)" using gc_Inr[OF g] by simp
  ultimately show ?thesis using that[of vm0] b by (simp add: wf_vm_def)
qed

lemma pushInt_wf:
  assumes wf: "wf_vm vm" and p: "pushInt vm v = Inr vm'"
  shows "wf_vm vm'"
proof -
  from p obtain vm1 obj vm2 where n: "newObject vm OBJ_INT = Inr (vm1, obj)"
    and sv: "set_value vm1 obj v = Inr vm2" and pu: "push vm2 obj = Inr vm'"
    by (auto simp: pushInt_def split: sum.splits prod.splits)
  from newObject_cases[OF wf n] obtain vm0 where wf0: "wf_vm vm0"
    and b: "bump vm0 OBJ_INT = Inr (vm1, obj)" by blast
  note bf = bump_wf[OF wf0 b]
  let ?n = "scanned (heap vm0) (nextp vm0)"
  from sv have vm2: "vm2 = vm1\<lparr>mem := (mem vm1)(cell_index (heap vm1) obj
        := (mem vm1 (cell_index (heap vm1) obj))\<lparr>ivalue := v\<rparr>)\<rparr>"
    by (auto simp: set_value_def Let_def split: if_splits)
  from pu have vm': "vm' = vm2\<lparr>stack := stack vm2 @ [obj]\<rparr>"
    by (auto simp: push_def split: if_splits)
  have ci: "cell_index (heap vm1) obj = ?n" using bf(1,2) by simp
  show ?thesis
  proof (rule alloc_wf[OF wf0, where c = "(mem vm0 ?n)\<lparr>otype := OBJ_INT, moveTo := 0, ivalue := v\<rparr>"])
    show "heap vm' = heap vm0" "cap vm' = cap vm0" using vm' vm2 bf by simp_all
    show "nextp vm' = heap vm0 + sizeof_Object * Suc ?n" using vm' vm2 bf by simp
    show "Suc ?n \<le> ncells (cap vm0)" by (rule bf(8))
    show "mem vm' = (mem vm0)(?n := (mem vm0 ?n)\<lparr>otype := OBJ_INT, moveTo := 0, ivalue := v\<rparr>)"
      using vm' vm2 bf(7) ci by simp
    show "\<forall>r \<in> set (stack vm'). in_heap vm0 r \<or> r = heap vm0 + sizeof_Object * ?n"
      using vm' vm2 bf(1,4) wf0 by (auto simp: wf_vm_def)
  qed simp_all
qed


lemma pushPair_wf:
  assumes wf: "wf_vm vm" and p: "pushPair vm = Inr (vm', obj)"
  shows "wf_vm vm'"
proof -
  from p obtain vm1 vm2 t vm3 vm4 h vm5 where n: "newObject vm OBJ_PAIR = Inr (vm1, obj)"
    and p1: "pop vm1 = Inr (vm2, t)" and st: "set_tail vm2 obj t = Inr vm3"
    and p2: "pop vm3 = Inr (vm4, h)" and sh: "set_head vm4 obj h = Inr vm5"
    and pu: "push vm5 obj = Inr vm'"
    by (auto simp: pushPair_def split: sum.splits prod.splits)
  from newObject_cases[OF wf n] obtain vm0 where wf0: "wf_vm vm0"
    and b: "bump vm0 OBJ_PAIR = Inr (vm1, obj)" by blast
  note bf = bump_wf[OF wf0 b]
  let ?n = "scanned (heap vm0) (nextp vm0)"
  have ci: "cell_index (heap vm0) obj = ?n" using bf(1) by simp
  from p1 have s1: "stack vm1 \<noteq> []" and vm2: "vm2 = vm1\<lparr>stack := butlast (stack vm1)\<rparr>"
    and t: "t = last (stack vm1)" by (auto simp: pop_def split: if_splits)
  from st have vm3: "vm3 = vm2\<lparr>mem := (mem vm2)(cell_index (heap vm2) obj
        := (mem vm2 (cell_index (heap vm2) obj))\<lparr>tail := t\<rparr>)\<rparr>"
    by (auto simp: set_tail_def Let_def split: if_splits)
  from p2 have s3: "stack vm3 \<noteq> []" and vm4: "vm4 = vm3\<lparr>stack := butlast (stack vm3)\<rparr>"
    and h: "h = last (stack vm3)" by (auto simp: pop_def split: if_splits)
  from sh have vm5: "vm5 = vm4\<lparr>mem := (mem vm4)(cell_index (heap vm4) obj
        := (mem vm4 (cell_index (heap vm4) obj))\<lparr>head := h\<rparr>)\<rparr>"
    by (auto simp: set_head_def Let_def split: if_splits)
  from pu have vm': "vm' = vm5\<lparr>stack := stack vm5 @ [obj]\<rparr>"
    by (auto simp: push_def split: if_splits)
  have tin: "t \<in> set (stack vm0)" using s1 t bf(4) by simp
  have "h \<in> set (butlast (stack vm0))"
    using s3 h vm3 vm2 bf(4) by simp
  then have hin: "h \<in> set (stack vm0)" by (rule in_set_butlastD)
  have sub: "set (stack vm') \<subseteq> set (stack vm0) \<union> {obj}"
    using vm' vm5 vm4 vm3 vm2 bf(4) by (auto dest: in_set_butlastD)
  show ?thesis
  proof (rule alloc_wf[OF wf0, where
        c = "(mem vm0 ?n)\<lparr>otype := OBJ_PAIR, moveTo := 0, tail := t, head := h\<rparr>"])
    show "heap vm' = heap vm0" "cap vm' = cap vm0"
      using vm' vm5 vm4 vm3 vm2 bf by simp_all
    show "nextp vm' = heap vm0 + sizeof_Object * Suc ?n"
      using vm' vm5 vm4 vm3 vm2 bf by simp
    show "Suc ?n \<le> ncells (cap vm0)" by (rule bf(8))
    show "mem vm' = (mem vm0)(?n := (mem vm0 ?n)\<lparr>otype := OBJ_PAIR, moveTo := 0, tail := t, head := h\<rparr>)"
      using vm' vm5 vm4 vm3 vm2 bf(2,7) ci by simp
    show "\<forall>r \<in> set (stack vm'). in_heap vm0 r \<or> r = heap vm0 + sizeof_Object * ?n"
      using sub bf(1) wf0 by (auto simp: wf_vm_def)
    show "in_heap vm0 (head ((mem vm0 ?n)\<lparr>otype := OBJ_PAIR, moveTo := 0, tail := t, head := h\<rparr>))
        \<and> in_heap vm0 (tail ((mem vm0 ?n)\<lparr>otype := OBJ_PAIR, moveTo := 0, tail := t, head := h\<rparr>))"
      using tin hin wf0 by (simp add: wf_vm_def)
  qed simp
qed

lemma step_f_wf: "wf_vm vm \<Longrightarrow> step_f vm x = Inr vm' \<Longrightarrow> wf_vm vm'"
proof (cases x)
  case (PushInt n)
  assume "wf_vm vm" "step_f vm x = Inr vm'"
  with PushInt show ?thesis using pushInt_wf by simp
next
  case PushPair
  assume "wf_vm vm" "step_f vm x = Inr vm'"
  with PushPair show ?thesis using pushPair_wf by (auto split: sum.splits)
next
  case Pop
  assume "wf_vm vm" "step_f vm x = Inr vm'"
  with Pop show ?thesis using pop_wf(1) by (auto split: sum.splits)
next
  case (Gc n)
  assume "wf_vm vm" "step_f vm x = Inr vm'"
  with Gc show ?thesis using gc_post_wf gc_fixed_post by auto
qed

lemma run_f_wf: "wf_vm vm \<Longrightarrow> run_f vm xs = Inr vm' \<Longrightarrow> wf_vm vm'"
  by (induction xs arbitrary: vm) (auto split: sum.splits dest: step_f_wf)


text \<open>
  Every state the fixed-heap variant reaches from \<open>newVM\<close> by \<open>pushInt\<close>, \<open>pushPair\<close>,
  \<open>pop\<close> and \<open>gc\<close> is well-formed.
\<close>

theorem fixed_states_wf:
  "base \<noteq> 0 \<Longrightarrow> run_f (newVM base junk) ops = Inr vm \<Longrightarrow> wf_vm vm"
  using run_f_wf[OF newVM_wf] by blast

text \<open>
  What a collection of the fixed-heap variant guarantees: the live count is the number of
  reachable cells, every surviving cell has a \<open>NULL\<close> forwarding slot, and the object
  graph is the old one moved along \<open>forward\<close>.
\<close>

theorem gc_fixed_liveCount:
  fixes vm :: VM
  assumes "wf_vm vm"
  shows "\<exists>vm'. gc vm = Inr vm' \<and> liveCount vm' = card (reachable (heap vm) (mem vm) (stack vm))"
  using gc_fixed_correct[OF assms] gc_post_liveCount by blast

theorem gc_fixed_moveTo_cleared:
  fixes vm :: VM
  assumes "wf_vm vm" "gc vm = Inr vm'" "in_heap vm' p"
  shows "moveTo (mem vm' (cell_index (heap vm') p)) = 0"
proof -
  have wf': "wf_vm vm'" using gc_post_wf[OF assms(1) gc_fixed_post[OF assms(1,2)]] .
  from in_heap_index(1)[OF wf' assms(3)] wf' show ?thesis by (simp add: wf_vm_def)
qed

theorem gc_fixed_pairs:
  fixes vm :: VM
  assumes "wf_vm vm" "gc vm = Inr vm'"
  shows "(\<forall>p. in_heap vm' p \<and> otype (mem vm' (cell_index (heap vm') p)) = OBJ_PAIR \<longrightarrow>
            in_heap vm' (head (mem vm' (cell_index (heap vm') p)))
            \<and> in_heap vm' (tail (mem vm' (cell_index (heap vm') p))))
    \<and> (\<forall>p \<in> reachable (heap vm) (mem vm) (stack vm).
          in_heap vm' (forward vm p)
          \<and> otype (mem vm' (cell_index (heap vm') (forward vm p))) = otype (mem vm (cell_index (heap vm) p))
          \<and> ivalue (mem vm' (cell_index (heap vm') (forward vm p))) = ivalue (mem vm (cell_index (heap vm) p))
          \<and> (otype (mem vm (cell_index (heap vm) p)) = OBJ_PAIR \<longrightarrow>
                head (mem vm' (cell_index (heap vm') (forward vm p)))
                  = forward vm (head (mem vm (cell_index (heap vm) p)))
                \<and> tail (mem vm' (cell_index (heap vm') (forward vm p)))
                  = forward vm (tail (mem vm (cell_index (heap vm) p)))))"
proof -
  have post: "gc_post vm vm'" by (rule gc_fixed_post[OF assms])
  have wf': "wf_vm vm'" by (rule gc_post_wf[OF assms(1) post])
  have "in_heap vm' (head (mem vm' (cell_index (heap vm') p)))
            \<and> in_heap vm' (tail (mem vm' (cell_index (heap vm') p)))"
    if "in_heap vm' p" "otype (mem vm' (cell_index (heap vm') p)) = OBJ_PAIR" for p
    using in_heap_index(1)[OF wf' that(1)] that(2) wf' by (simp add: wf_vm_def)
  moreover have "in_heap vm' (forward vm p)
          \<and> otype (mem vm' (cell_index (heap vm') (forward vm p))) = otype (mem vm (cell_index (heap vm) p))
          \<and> ivalue (mem vm' (cell_index (heap vm') (forward vm p))) = ivalue (mem vm (cell_index (heap vm) p))
          \<and> (otype (mem vm (cell_index (heap vm) p)) = OBJ_PAIR \<longrightarrow>
                head (mem vm' (cell_index (heap vm') (forward vm p)))
                  = forward vm (head (mem vm (cell_index (heap vm) p)))
                \<and> tail (mem vm' (cell_index (heap vm') (forward vm p)))
                  = forward vm (tail (mem vm (cell_index (heap vm) p))))"
    if "p \<in> reachable (heap vm) (mem vm) (stack vm)" for p
  proof -
    from post that have "mem vm' (cell_index (heap vm') (forward vm p))
        = relocate (forward vm) (mem vm (cell_index (heap vm) p))"
      by (simp add: gc_post_def)
    then show ?thesis using gc_post_in_heap[OF assms(1) post that] by (simp add: relocate_def)
  qed
  ultimately show ?thesis by blast
qed

section \<open>When allocation collects, and when it fails\<close>

lemma full_heap_fields:
  "heap full_heap = 4096" "cap full_heap = HEAP_SIZE" "nextp full_heap = 4096 + HEAP_SIZE"
  "stack full_heap = [4096 + sizeof_Object * 32766, 4096 + sizeof_Object * 32767]"
  "i < 32768 \<Longrightarrow> mem full_heap i = list_cell i"
  by (simp_all add: full_heap_def)

lemma full_heap_scanned: "scanned 4096 (4096 + HEAP_SIZE) = 32768"
  by (simp add: scanned_def HEAP_SIZE_def sizeof_Object_def)

lemma full_heap_in_heap:
  "i < 32768 \<Longrightarrow> in_heap full_heap (4096 + sizeof_Object * i)"
  by (simp add: in_heap_def valid_ref_def full_heap_def HEAP_SIZE_def sizeof_Object_def)

lemma full_heap_wf: "wf_vm full_heap"
  unfolding wf_vm_def
proof (intro conjI allI impI ballI)
  show "heap full_heap \<noteq> 0" by (simp add: full_heap_fields)
  show "nextp full_heap = heap full_heap + sizeof_Object * scanned (heap full_heap) (nextp full_heap)"
    by (simp add: full_heap_fields full_heap_scanned) (simp add: HEAP_SIZE_def sizeof_Object_def)
  show "scanned (heap full_heap) (nextp full_heap) \<le> ncells (cap full_heap)"
    by (simp add: full_heap_fields full_heap_scanned) (simp add: ncells_def HEAP_SIZE_def sizeof_Object_def)
next
  fix i assume "i < scanned (heap full_heap) (nextp full_heap)"
  then show "moveTo (mem full_heap i) = 0"
    by (simp add: full_heap_fields full_heap_scanned list_cell_def)
next
  fix r assume "r \<in> set (stack full_heap)"
  then show "in_heap full_heap r"
    using full_heap_in_heap[of 32766] full_heap_in_heap[of 32767]
    by (auto simp: full_heap_fields)
next
  fix i assume i: "i < scanned (heap full_heap) (nextp full_heap)"
    and p: "otype (mem full_heap i) = OBJ_PAIR"
  from i have i': "i < 32768" by (simp add: full_heap_fields full_heap_scanned)
  with p have c: "mem full_heap i = list_cell i" "\<not> (i = 0 \<or> odd i)"
    by (auto simp: full_heap_fields list_cell_def split: if_splits)
  show "in_heap full_heap (head (mem full_heap i))"
    using full_heap_in_heap[of "i - 2"] c i' by (simp add: list_cell_def)
  show "in_heap full_heap (tail (mem full_heap i))"
    using full_heap_in_heap[of "i - 1"] c i' by (simp add: list_cell_def)
qed

lemma full_heap_even_reachable:
  "k \<le> 16383 \<Longrightarrow>
     4096 + sizeof_Object * (2 * (16383 - k)) \<in> reachable 4096 (mem full_heap) (stack full_heap)"
proof (induction k)
  case 0
  show ?case by (rule reachable.root) (simp add: full_heap_fields)
next
  case (Suc k)
  let ?i = "2 * (16383 - k)"
  from Suc have r: "4096 + sizeof_Object * ?i \<in> reachable 4096 (mem full_heap) (stack full_heap)"
    by simp
  have ci: "cell_index 4096 (4096 + sizeof_Object * ?i) = ?i" by (rule cell_index_cell)
  have "?i < 32768" by simp
  then have c: "mem full_heap ?i = list_cell ?i" by (rule full_heap_fields)
  from Suc(2) have i: "?i \<noteq> 0" "even ?i" "?i - 2 = 2 * (16383 - Suc k)" by simp_all
  have pc: "otype (list_cell ?i) = OBJ_PAIR" "head (list_cell ?i) = 4096 + sizeof_Object * (?i - 2)"
    using i(1,2) by (simp_all add: list_cell_def)
  have "head (list_cell ?i) \<in> reachable 4096 (mem full_heap) (stack full_heap)"
    using reachable.head[of "4096 + sizeof_Object * ?i" 4096 "mem full_heap" "stack full_heap"] r pc(1)
    unfolding ci c by blast
  then show ?case unfolding pc(2) i(3) .
qed

lemma full_heap_reachable:
  assumes "i < 32768"
  shows "4096 + sizeof_Object * i \<in> reachable 4096 (mem full_heap) (stack full_heap)"
proof (cases "even i")
  case True
  then obtain j where j: "i = 2 * j" by (auto elim: evenE)
  with assms have "j \<le> 16383" by simp
  then have "i = 2 * (16383 - (16383 - j))" using j by simp
  then show ?thesis using full_heap_even_reachable[of "16383 - j"] by simp
next
  case False
  show ?thesis
  proof (cases "i = 32767")
    case True
    show ?thesis unfolding True by (rule reachable.root) (simp add: full_heap_fields)
  next
    case ne: False
    from False obtain j where j: "i = 2 * j + 1" by (auto elim: oddE)
    with assms ne have jb: "j + 1 \<le> 16383" by simp
    let ?p = "2 * (j + 1)"
    have r: "4096 + sizeof_Object * ?p \<in> reachable 4096 (mem full_heap) (stack full_heap)"
      using full_heap_even_reachable[of "16383 - (j + 1)"] jb by simp
    have ci: "cell_index 4096 (4096 + sizeof_Object * ?p) = ?p" by (rule cell_index_cell)
    from jb have "?p < 32768" by simp
    then have c: "mem full_heap ?p = list_cell ?p" by (rule full_heap_fields)
    have pc: "otype (list_cell ?p) = OBJ_PAIR" "tail (list_cell ?p) = 4096 + sizeof_Object * (?p - 1)"
      by (simp_all add: list_cell_def)
    have "tail (list_cell ?p) \<in> reachable 4096 (mem full_heap) (stack full_heap)"
      using reachable.tail[of "4096 + sizeof_Object * ?p" 4096 "mem full_heap" "stack full_heap"] r pc(1)
      unfolding ci c by blast
    moreover have "?p - 1 = i" using j by simp
    ultimately show ?thesis unfolding pc(2) by (simp only:)
  qed
qed

lemma full_heap_live: "card (reachable (heap full_heap) (mem full_heap) (stack full_heap)) = 32768"
proof -
  let ?R = "reachable (heap full_heap) (mem full_heap) (stack full_heap)"
  have "(\<lambda>j. 4096 + sizeof_Object * j) ` {..< 32768} \<subseteq> ?R"
    using full_heap_reachable by (auto simp: full_heap_fields)
  then have "card ((\<lambda>j. (4096::nat) + sizeof_Object * j) ` {..< 32768}) \<le> card ?R"
    using wf_reachable_finite[OF full_heap_wf] by (rule card_mono[rotated])
  then have "32768 \<le> card ?R" by (simp only: card_cells)
  moreover have "card ?R \<le> 32768"
    using card_reachable_le[OF full_heap_wf] by (simp add: full_heap_fields full_heap_scanned)
  ultimately show ?thesis by simp
qed

lemma full_heap_stays_full:
  "full full_heap \<and> (\<exists>vm1. gc full_heap = Inr vm1 \<and> full vm1)"
proof -
  obtain vm1 where g: "gc full_heap = Inr vm1" and p: "gc_post full_heap vm1"
    using gc_fixed_correct[OF full_heap_wf] by blast
  from p have "nextp vm1 = heap full_heap
      + sizeof_Object * card (reachable (heap full_heap) (mem full_heap) (stack full_heap))"
    and "heap vm1 = heap full_heap"
    by (simp_all add: gc_post_def)
  then have "nextp vm1 = heap vm1 + HEAP_SIZE"
    unfolding full_heap_live by (simp add: HEAP_SIZE_def sizeof_Object_def)
  then have "full vm1" by (simp add: full_def sizeof_Object_def)
  moreover have "full full_heap" by (simp add: full_def full_heap_fields sizeof_Object_def)
  ultimately show ?thesis using g by blast
qed

lemma reachable_no_roots: "reachable base m [] = {}"
proof -
  have "False" if "p \<in> reachable base m []" for p
    using that by (induction rule: reachable.induct) simp_all
  then show ?thesis by blast
qed

lemma garbage_heap_wf: "wf_vm garbage_heap"
  by (simp add: wf_vm_def garbage_heap_def scanned_def ncells_def junk0_def HEAP_SIZE_def
      sizeof_Object_def)

lemma garbage_heap_collected:
  "full garbage_heap \<and> (\<exists>vm1. gc garbage_heap = Inr vm1 \<and> nextp vm1 = 4096 \<and> heap vm1 = 4096
      \<and> cap vm1 = HEAP_SIZE \<and> \<not> full vm1)"
proof -
  obtain vm1 where g: "gc garbage_heap = Inr vm1" and p: "gc_post garbage_heap vm1"
    using gc_fixed_correct[OF garbage_heap_wf] by blast
  have "reachable (heap garbage_heap) (mem garbage_heap) (stack garbage_heap) = {}"
    by (simp add: garbage_heap_def reachable_no_roots)
  with p have "nextp vm1 = 4096" "heap vm1 = 4096" "cap vm1 = HEAP_SIZE"
    by (simp_all add: gc_post_def garbage_heap_def)
  moreover from this have "\<not> full vm1" by (simp add: full_def HEAP_SIZE_def sizeof_Object_def)
  moreover have "full garbage_heap" by (simp add: full_def garbage_heap_def sizeof_Object_def)
  ultimately show ?thesis using g by blast
qed


lemma newObject_r_realloc_fails:
  assumes "full_r vm" "fst ra = 0"
  shows "newObject_r vm ty ra = Inl UndefinedBehaviour"
proof (cases "gc_r vm sizeof_Object ra")
  case (Inl e)
  with gc_r_ub[OF Inl] assms show ?thesis by (simp add: newObject_r_def full_r_def)
next
  case (Inr vm1)
  from Inr obtain l h where "heap vm1 = fst ra" "cap vm1 = (if fst ra = 0 then 0 else h)"
    by (rule gc_r_Inr)
  with assms(2) have "bump vm1 ty = Inl UndefinedBehaviour"
    by (simp add: bump_def valid_ref_def Let_def sizeof_Object_def)
  with Inr assms show ?thesis by (simp add: newObject_r_def full_r_def)
qed

lemma newObject_fixed_OutOfMemory:
  "newObject vm ty = Inl OutOfMemory \<longleftrightarrow> full vm \<and> (\<exists>vm1. gc vm = Inr vm1 \<and> full vm1)"
proof
  assume a: "newObject vm ty = Inl OutOfMemory"
  with newObject_fixed_cases[of vm ty] show "full vm \<and> (\<exists>vm1. gc vm = Inr vm1 \<and> full vm1)"
    by simp
next
  assume "full vm \<and> (\<exists>vm1. gc vm = Inr vm1 \<and> full vm1)"
  then show "newObject vm ty = Inl OutOfMemory"
    by (auto simp: newObject_def full_def)
qed

text \<open>
  C7. \<open>newObject\<close> runs the collector exactly when there is no room for one cell: with
  room its result is that of the plain allocation, without room it is that of the
  collection followed by the second test (the collector prints one line each time it
  runs, so a successful result has one more line exactly in that case). The fixed-heap
  variant fails with \<open>OutOfMemory\<close> if and only if there was no room, the collection
  returned, and there is still no room. The reallocating variant never fails with
  \<open>OutOfMemory\<close>: when there was no room, \<open>realloc\<close> succeeds and the collection returns,
  the grown heap has room and the allocation succeeds at the new frontier; when
  \<open>realloc\<close> fails, which the code does not check, the behaviour is undefined.
\<close>

theorem newObject_collects_iff_full:
  "(\<not> full vm \<longrightarrow> newObject vm ty = bump vm ty)
   \<and> (full vm \<longrightarrow> newObject vm ty =
        (case gc vm of Inl e \<Rightarrow> Inl e
         | Inr vm1 \<Rightarrow> if full vm1 then Inl OutOfMemory else bump vm1 ty))
   \<and> (newObject vm ty = Inl OutOfMemory \<longleftrightarrow> full vm \<and> (\<exists>vm1. gc vm = Inr vm1 \<and> full vm1))
   \<and> (\<forall>vm' p. newObject vm ty = Inr (vm', p) \<longrightarrow>
         length (out vm') = length (out vm) + (if full vm then 1 else 0))
   \<and> (\<not> full_r vmr \<longrightarrow> newObject_r vmr ty ra = bump vmr ty)
   \<and> (full_r vmr \<longrightarrow> newObject_r vmr ty ra =
        (case gc_r vmr sizeof_Object ra of Inl e \<Rightarrow> Inl e | Inr vm1 \<Rightarrow> bump vm1 ty))
   \<and> newObject_r vmr ty ra \<noteq> Inl OutOfMemory
   \<and> (\<forall>vm' p. newObject_r vmr ty ra = Inr (vm', p) \<longrightarrow>
         length (out vm') = length (out vmr) + (if full_r vmr then 1 else 0))
   \<and> (full_r vmr \<longrightarrow> fst ra \<noteq> 0 \<longrightarrow>
        (\<forall>vm1. gc_r vmr sizeof_Object ra = Inr vm1 \<longrightarrow>
           \<not> full_r vm1 \<and> (\<exists>vm'. newObject_r vmr ty ra = Inr (vm', nextp vm1))))
   \<and> (full_r vmr \<longrightarrow> fst ra = 0 \<longrightarrow> newObject_r vmr ty ra = Inl UndefinedBehaviour)"
proof (intro conjI)
  show "\<not> full vm \<longrightarrow> newObject vm ty = bump vm ty"
    by (simp add: newObject_def full_def)
  show "full vm \<longrightarrow> newObject vm ty =
        (case gc vm of Inl e \<Rightarrow> Inl e
         | Inr vm1 \<Rightarrow> if full vm1 then Inl OutOfMemory else bump vm1 ty)"
    by (simp add: newObject_def full_def split: sum.splits)
  show "newObject vm ty = Inl OutOfMemory \<longleftrightarrow> full vm \<and> (\<exists>vm1. gc vm = Inr vm1 \<and> full vm1)"
    by (rule newObject_fixed_OutOfMemory)
  show "\<forall>vm' p. newObject vm ty = Inr (vm', p) \<longrightarrow>
         length (out vm') = length (out vm) + (if full vm then 1 else 0)"
    using newObject_fixed_cases[of vm ty] by (auto split: sum.splits)
  show "\<not> full_r vmr \<longrightarrow> newObject_r vmr ty ra = bump vmr ty"
    by (simp add: newObject_r_def full_r_def)
  show "full_r vmr \<longrightarrow> newObject_r vmr ty ra =
        (case gc_r vmr sizeof_Object ra of Inl e \<Rightarrow> Inl e | Inr vm1 \<Rightarrow> bump vm1 ty)"
    by (simp add: newObject_r_def full_r_def)
  show "newObject_r vmr ty ra \<noteq> Inl OutOfMemory"
    using newObject_r_cases[of vmr ty ra] by auto
  show "\<forall>vm' p. newObject_r vmr ty ra = Inr (vm', p) \<longrightarrow>
         length (out vm') = length (out vmr) + (if full_r vmr then 1 else 0)"
    using newObject_r_cases[of vmr ty ra] by (auto split: sum.splits)
  show "full_r vmr \<longrightarrow> fst ra \<noteq> 0 \<longrightarrow>
        (\<forall>vm1. gc_r vmr sizeof_Object ra = Inr vm1 \<longrightarrow>
           \<not> full_r vm1 \<and> (\<exists>vm'. newObject_r vmr ty ra = Inr (vm', nextp vm1)))"
  proof (intro impI allI)
    fix vm1
    assume a: "full_r vmr" "fst ra \<noteq> 0" "gc_r vmr sizeof_Object ra = Inr vm1"
    show "\<not> full_r vm1 \<and> (\<exists>vm'. newObject_r vmr ty ra = Inr (vm', nextp vm1))"
      using gc_r_room[OF a(3) a(2), of ty] a(1) a(3)
      by (auto simp: newObject_r_def full_r_def)
  qed
  show "full_r vmr \<longrightarrow> fst ra = 0 \<longrightarrow> newObject_r vmr ty ra = Inl UndefinedBehaviour"
    using newObject_r_realloc_fails by blast
qed

theorem newObject_collects_iff_full_witness:
  "\<not> full (newVM 4096 junk0)
   \<and> (\<exists>vm'. newObject (newVM 4096 junk0) OBJ_INT = Inr (vm', 4096) \<and> out vm' = [])
   \<and> full full_heap \<and> (\<exists>vm1. gc full_heap = Inr vm1 \<and> full vm1)
   \<and> newObject full_heap OBJ_INT = Inl OutOfMemory
   \<and> full garbage_heap
   \<and> (\<exists>vm1 vm'. gc garbage_heap = Inr vm1 \<and> \<not> full vm1
        \<and> newObject garbage_heap OBJ_INT = Inr (vm', 4096) \<and> length (out vm') = 1)
   \<and> \<not> full_r three_ints
   \<and> (\<exists>vm'. newObject_r three_ints OBJ_INT (4096, junk0) = Inr (vm', 4192)
        \<and> length (out vm') = length (out three_ints))
   \<and> full_r (newVMr 4096 junk0) \<and> fst (4096 :: addr, junk0) \<noteq> 0
   \<and> (\<exists>vm1 vm'. gc_r (newVMr 4096 junk0) sizeof_Object (4096, junk0) = Inr vm1
        \<and> \<not> full_r vm1
        \<and> newObject_r (newVMr 4096 junk0) OBJ_INT (4096, junk0) = Inr (vm', nextp vm1)
        \<and> length (out vm') = 1)
   \<and> fst (0 :: addr, junk0) = 0
   \<and> newObject_r (newVMr 4096 junk0) OBJ_INT (0, junk0) = Inl UndefinedBehaviour"
proof -
  note t1 = newObject_collects_iff_full[of "newVM 4096 junk0" OBJ_INT "newVMr 4096 junk0"
      "(4096, junk0)"]
  note t2 = newObject_collects_iff_full[of full_heap OBJ_INT three_ints "(4096, junk0)"]
  note t3 = newObject_collects_iff_full[of garbage_heap OBJ_INT "newVMr 4096 junk0" "(0, junk0)"]
  \<comment> \<open>the fixed heap with room\<close>
  have a1: "\<not> full (newVM 4096 junk0)"
    by (simp add: full_def newVM_def sizeof_Object_def HEAP_SIZE_def)
  obtain vm' where "bump (newVM 4096 junk0) OBJ_INT = Inr (vm', 4096)" "out vm' = []"
    by (simp add: newVM_def bump_def valid_ref_def sizeof_Object_def HEAP_SIZE_def Let_def)
  with t1 a1 have a2: "\<exists>vm'. newObject (newVM 4096 junk0) OBJ_INT = Inr (vm', 4096) \<and> out vm' = []"
    by simp
  \<comment> \<open>the fixed heap, full of live cells\<close>
  note b1 = full_heap_stays_full
  with t2 have b2: "newObject full_heap OBJ_INT = Inl OutOfMemory" by blast
  \<comment> \<open>the fixed heap, full of dead cells\<close>
  from garbage_heap_collected obtain vm1 where c1: "full garbage_heap"
    and c2: "gc garbage_heap = Inr vm1" "\<not> full vm1"
    and c3: "nextp vm1 = 4096" "heap vm1 = 4096" "cap vm1 = HEAP_SIZE"
    by blast
  from c3 obtain vm2 where "bump vm1 OBJ_INT = Inr (vm2, 4096)"
    by (simp add: bump_def valid_ref_def sizeof_Object_def HEAP_SIZE_def Let_def)
  with t3 c1 c2 have c4: "newObject garbage_heap OBJ_INT = Inr (vm2, 4096)" by simp
  with t3 c1 have "length (out vm2) = length (out garbage_heap) + 1" by simp
  then have c5: "length (out vm2) = 1" by (simp add: garbage_heap_def)
  \<comment> \<open>the reallocating heap with room\<close>
  have d1: "\<not> full_r three_ints" by (simp add: full_r_def three_ints_def sizeof_Object_def)
  obtain vm3 where "bump three_ints OBJ_INT = Inr (vm3, 4192)"
    by (simp add: three_ints_def bump_def valid_ref_def sizeof_Object_def Let_def)
  with t2 d1 have d2: "newObject_r three_ints OBJ_INT (4096, junk0) = Inr (vm3, 4192)" by simp
  with t2 d1 have d3: "length (out vm3) = length (out three_ints)" by simp
  \<comment> \<open>the reallocating heap without room\<close>
  have e1: "full_r (newVMr 4096 junk0)" "fst (4096 :: addr, junk0) \<noteq> 0"
    "out (newVMr 4096 junk0) = []"
    by (simp_all add: full_r_def newVMr_def sizeof_Object_def HEAP_MIN_def)
  obtain vm4 where e2: "gc_r (newVMr 4096 junk0) sizeof_Object (4096, junk0) = Inr vm4"
    by (simp add: eval_defs)
  from t1 e1 e2 obtain vm5 where
    e3: "\<not> full_r vm4" "newObject_r (newVMr 4096 junk0) OBJ_INT (4096, junk0) = Inr (vm5, nextp vm4)"
    by blast
  from t1 e3(2) e1 have e4: "length (out vm5) = 1" by simp
  \<comment> \<open>\<open>realloc\<close> fails\<close>
  have f1: "fst (0 :: addr, junk0) = 0" by simp
  with t3 e1 have f2: "newObject_r (newVMr 4096 junk0) OBJ_INT (0, junk0) = Inl UndefinedBehaviour"
    by blast
  from a1 a2 b1 b2 c1 c2 c4 c5 d1 d2 d3 e1 e2 e3 e4 f1 f2 show ?thesis by blast
qed

section \<open>Cells the reallocating collector never visits\<close>

lemma gc_r_skips_cells:
  assumes prep: "gc_r_prepare vm additionalSize ra = Inr (vm5, oldHeap)"
    and upd: "updateAllObjectPointers_r vm5 oldHeap = Inr vm6"
    and cmp: "compact_r vm6 oldHeap = Inr vm7"
    and k: "k < scanned (heap vm) (nextp vm)"
    and inside: "sizeof_Object * k + sizeof_Object \<le> cap vm5"
    and live: "moveTo (mem vm5 k) \<noteq> 0"
    and beyond: "nextp vm5 - heap vm5 \<le> sizeof_Object * k"
  shows "gc_r vm additionalSize ra =
           Inr (vm7\<lparr>out := out vm7 @ [[nextp vm7 - heap vm7, endp vm7 - heap vm7]]\<rparr>)"
    and "mem vm6 k = mem vm5 k"
    and "mem vm7 k = mem vm5 k"
    and "mem vm7 (cell_index oldHeap (moveTo (mem vm5 k)))
           = mem vm6 (cell_index oldHeap (moveTo (mem vm5 k)))"
proof -
  obtain m1 where old: "oldHeap = heap vm" and h5: "heap vm5 = fst ra"
    and n5: "nextp vm5 = fst ra + sizeof_Object * live_below m1 (scanned (heap vm) (nextp vm))"
    and c5: "Inr (cap vm5) = (if fst ra = 0 then Inr 0
                else heapSize_of (sizeof_Object * live_below m1 (scanned (heap vm) (nextp vm))) additionalSize)"
    and nle: "scanned (heap vm) (nextp vm) \<le> ncells (cap vm)"
    and m5: "\<And>i. fst ra \<noteq> 0 \<Longrightarrow> i < ncells (cap vm) \<Longrightarrow> i < ncells (cap vm5) \<Longrightarrow>
       mem vm5 i = planned (heap vm) m1 (scanned (heap vm) (nextp vm)) i"
    using gc_r_prepare_Inr[OF prep] by blast
  let ?n = "scanned (heap vm) (nextp vm)"
  let ?L = "live_below m1 ?n"
  from inside c5 have ra: "fst ra \<noteq> 0" by (auto simp: sizeof_Object_def split: if_splits)
  have Ln: "?L \<le> ?n" by (rule live_below_le)
  from beyond n5 h5 have Lk: "?L \<le> k" by (simp add: sizeof_Object_def)
  have kcap: "k < ncells (cap vm5)" using inside by (simp add: ncells_def sizeof_Object_def)
  have plan: "mem vm5 i = planned (heap vm) m1 ?n i" if "i \<le> k" for i
    using m5[OF ra, of i] that k nle kcap by simp
  have mk: "moveTo (m1 k) \<noteq> 0" and dk: "moveTo (mem vm5 k) = heap vm + sizeof_Object * live_below m1 k"
    using live plan[of k] k by (auto simp: planned_def split: if_splits)
  have di: "moveTo (m1 i) \<noteq> 0 \<and> moveTo (mem vm5 i) = heap vm + sizeof_Object * live_below m1 i"
    if "i < ?L" "moveTo (mem vm5 i) \<noteq> 0" for i
    using that plan[of i] Lk Ln by (auto simp: planned_def split: if_splits)
  have sc: "scanned (heap vm5) (nextp vm5) = ?L" using n5 h5 by simp
  \<comment> \<open>the pointer-update phase\<close>
  from upd obtain m6 where w6: "walk (heap vm5) (cap vm5) (nextp vm5)
        (updateFields_body_r (heap vm5) (cap vm5) oldHeap) (mem vm5) (heap vm5) = Inr m6"
    and vm6: "mem vm6 = m6" "heap vm6 = heap vm5" "cap vm6 = cap vm5" "nextp vm6 = nextp vm5"
    by (auto simp: updateAllObjectPointers_r_def split: sum.splits)
  from updateFields_r_frame[OF w6] sc
  have f6: "\<And>i. moveTo (m6 i) = moveTo (mem vm5 i)" "\<And>i. ?L \<le> i \<Longrightarrow> m6 i = mem vm5 i"
    by simp_all
  show r1: "mem vm6 k = mem vm5 k" using f6(2)[OF Lk] vm6 by simp
  \<comment> \<open>the slide\<close>
  from cmp obtain m7 where w7: "walk (heap vm5) (cap vm5) (nextp vm5)
        (compact_body_r (heap vm5) (cap vm5) oldHeap) m6 (heap vm5) = Inr m7"
    and vm7: "mem vm7 = m7"
    using vm6 by (auto simp: compact_r_def split: sum.splits)
  let ?D = "{k, live_below m1 k}"
  have "\<forall>j \<in> ?D. m7 j = m6 j"
  proof (rule compact_r_frame[OF w7])
    fix i to
    assume i: "i < scanned (heap vm5) (nextp vm5)" and mv: "moveTo (m6 i) \<noteq> 0"
      and rb: "rebase (heap vm5) oldHeap (moveTo (m6 i)) = Inr to"
    from i sc have iL: "i < ?L" by simp
    from di[OF iL] mv f6(1) have mi: "moveTo (m1 i) \<noteq> 0"
      and "moveTo (m6 i) = heap vm + sizeof_Object * live_below m1 i" by simp_all
    with rb old have "to = heap vm5 + sizeof_Object * live_below m1 i"
      by (simp add: rebase_planned)
    then have ci: "cell_index (heap vm5) to = live_below m1 i" by simp
    have "live_below m1 i \<le> i" by (rule live_below_le)
    moreover have "live_below m1 i < live_below m1 k"
      using live_below_strict[of i k m1] iL Lk mi by simp
    ultimately show "cell_index (heap vm5) to \<le> i \<and> cell_index (heap vm5) to \<notin> ?D"
      using ci iL Lk by auto
  qed
  then have f7: "m7 k = m6 k" "m7 (live_below m1 k) = m6 (live_below m1 k)" by simp_all
  show "mem vm7 k = mem vm5 k" using f7(1) r1 vm6 vm7 by simp
  show "mem vm7 (cell_index oldHeap (moveTo (mem vm5 k)))
           = mem vm6 (cell_index oldHeap (moveTo (mem vm5 k)))"
    using f7(2) vm6 vm7 dk old by simp
  show "gc_r vm additionalSize ra =
           Inr (vm7\<lparr>out := out vm7 @ [[nextp vm7 - heap vm7, endp vm7 - heap vm7]]\<rparr>)"
    using prep upd cmp by (simp add: gc_r_phases)
qed


text \<open>
  C4. In the reallocating variant \<open>gc\<close> has assigned \<open>vm->next = vm->heap + liveSize\<close>
  when the pointer-update and slide phases start, and both walk only below it. So for
  a cell \<open>k\<close> of the old heap that is live, still inside the block, and at an offset of
  at least \<open>liveSize\<close>: the pointer update leaves the cell as it is, the slide leaves it
  as it is (its fields are not rewritten, its mark is not cleared), and the slide never
  writes the slot planned as its destination.
\<close>

theorem gc_r_skips_cells_beyond_liveSize:
  assumes "gc_r_prepare vm additionalSize ra = Inr (vm5, oldHeap)"
    and "updateAllObjectPointers_r vm5 oldHeap = Inr vm6"
    and "compact_r vm6 oldHeap = Inr vm7"
    and "k < scanned (heap vm) (nextp vm)"
    and "sizeof_Object * k + sizeof_Object \<le> cap vm5"
    and "moveTo (mem vm5 k) \<noteq> 0"
    and "nextp vm5 - heap vm5 \<le> sizeof_Object * k"
  shows "gc_r vm additionalSize ra =
           Inr (vm7\<lparr>out := out vm7 @ [[nextp vm7 - heap vm7, endp vm7 - heap vm7]]\<rparr>)
    \<and> mem vm6 k = mem vm5 k
    \<and> mem vm7 k = mem vm5 k
    \<and> mem vm7 (cell_index oldHeap (moveTo (mem vm5 k)))
           = mem vm6 (cell_index oldHeap (moveTo (mem vm5 k)))"
  using gc_r_skips_cells[OF assms] by simp

theorem gc_r_skips_cells_beyond_liveSize_witness:
  "\<exists>vm vm5 oldHeap vm6 vm7.
     test4_setup inplace (newVMr 4096 junk0) = Inr vm
     \<and> gc_r_prepare vm 0 (inplace vm) = Inr (vm5, oldHeap)
     \<and> updateAllObjectPointers_r vm5 oldHeap = Inr vm6
     \<and> compact_r vm6 oldHeap = Inr vm7
     \<and> 5 < scanned (heap vm) (nextp vm)
     \<and> sizeof_Object * 5 + sizeof_Object \<le> cap vm5
     \<and> moveTo (mem vm5 5) \<noteq> 0
     \<and> nextp vm5 - heap vm5 \<le> sizeof_Object * 5
     \<and> cell_index oldHeap (moveTo (mem vm5 5)) = 3
     \<and> mem vm6 5 = mem vm5 5 \<and> mem vm7 5 = mem vm5 5 \<and> mem vm7 3 = mem vm6 3"
proof -
  have "case test4_setup inplace (newVMr 4096 junk0) of Inl e \<Rightarrow> False | Inr vm \<Rightarrow>
     (case gc_r_prepare vm 0 (inplace vm) of Inl e \<Rightarrow> False | Inr (vm5, oldHeap) \<Rightarrow>
      (case updateAllObjectPointers_r vm5 oldHeap of Inl e \<Rightarrow> False | Inr vm6 \<Rightarrow>
       (case compact_r vm6 oldHeap of Inl e \<Rightarrow> False | Inr vm7 \<Rightarrow>
          5 < scanned (heap vm) (nextp vm)
          \<and> sizeof_Object * 5 + sizeof_Object \<le> cap vm5
          \<and> moveTo (mem vm5 5) \<noteq> 0
          \<and> nextp vm5 - heap vm5 \<le> sizeof_Object * 5
          \<and> cell_index oldHeap (moveTo (mem vm5 5)) = 3)))"
    by (simp add: eval_defs gc_r_prepare_def scanned_def)
  then obtain vm where a: "test4_setup inplace (newVMr 4096 junk0) = Inr vm"
    and ev1: "case gc_r_prepare vm 0 (inplace vm) of Inl e \<Rightarrow> False | Inr (vm5, oldHeap) \<Rightarrow>
      (case updateAllObjectPointers_r vm5 oldHeap of Inl e \<Rightarrow> False | Inr vm6 \<Rightarrow>
       (case compact_r vm6 oldHeap of Inl e \<Rightarrow> False | Inr vm7 \<Rightarrow>
          5 < scanned (heap vm) (nextp vm)
          \<and> sizeof_Object * 5 + sizeof_Object \<le> cap vm5
          \<and> moveTo (mem vm5 5) \<noteq> 0
          \<and> nextp vm5 - heap vm5 \<le> sizeof_Object * 5
          \<and> cell_index oldHeap (moveTo (mem vm5 5)) = 3))"
    by (cases "test4_setup inplace (newVMr 4096 junk0)") auto
  from ev1 obtain vm5 oldHeap where b: "gc_r_prepare vm 0 (inplace vm) = Inr (vm5, oldHeap)"
    and ev2: "case updateAllObjectPointers_r vm5 oldHeap of Inl e \<Rightarrow> False | Inr vm6 \<Rightarrow>
       (case compact_r vm6 oldHeap of Inl e \<Rightarrow> False | Inr vm7 \<Rightarrow>
          5 < scanned (heap vm) (nextp vm)
          \<and> sizeof_Object * 5 + sizeof_Object \<le> cap vm5
          \<and> moveTo (mem vm5 5) \<noteq> 0
          \<and> nextp vm5 - heap vm5 \<le> sizeof_Object * 5
          \<and> cell_index oldHeap (moveTo (mem vm5 5)) = 3)"
    by (cases "gc_r_prepare vm 0 (inplace vm)") auto
  from ev2 obtain vm6 where c: "updateAllObjectPointers_r vm5 oldHeap = Inr vm6"
    and ev3: "case compact_r vm6 oldHeap of Inl e \<Rightarrow> False | Inr vm7 \<Rightarrow>
          5 < scanned (heap vm) (nextp vm)
          \<and> sizeof_Object * 5 + sizeof_Object \<le> cap vm5
          \<and> moveTo (mem vm5 5) \<noteq> 0
          \<and> nextp vm5 - heap vm5 \<le> sizeof_Object * 5
          \<and> cell_index oldHeap (moveTo (mem vm5 5)) = 3"
    by (cases "updateAllObjectPointers_r vm5 oldHeap") auto
  from ev3 obtain vm7 where d: "compact_r vm6 oldHeap = Inr vm7"
    and h: "5 < scanned (heap vm) (nextp vm)" "sizeof_Object * 5 + sizeof_Object \<le> cap vm5"
      "moveTo (mem vm5 5) \<noteq> 0" "nextp vm5 - heap vm5 \<le> sizeof_Object * 5"
    and e: "cell_index oldHeap (moveTo (mem vm5 5)) = 3"
    by (cases "compact_r vm6 oldHeap") auto
  from gc_r_skips_cells_beyond_liveSize[OF b c d h] e
  have "mem vm6 5 = mem vm5 5 \<and> mem vm7 5 = mem vm5 5 \<and> mem vm7 3 = mem vm6 3" by simp
  with a b c d h e show ?thesis by blast
qed

section \<open>The collector of the reallocating variant loses cells\<close>

text \<open>
  \<open>gc\<close> of \<open>lisp2-reallocate.c\<close> sets \<open>vm->next = vm->heap + liveSize\<close> before it calls
  \<open>updateAllObjectPointers\<close> and \<open>compact\<close>, whose walks stop at \<open>vm->next\<close>; \<open>lisp2.c\<close>
  sets \<open>vm->next\<close> after them. The theorems of this section run the reallocating variant
  on small programs, with \<open>realloc\<close> resizing in place.
\<close>

lemma reachable_ints:
  assumes "\<forall>r \<in> set roots. otype (m (cell_index base r)) = OBJ_INT"
  shows "reachable base m roots = set roots"
proof
  show "reachable base m roots \<subseteq> set roots"
  proof
    fix p assume "p \<in> reachable base m roots"
    then show "p \<in> set roots"
      using assms by (induction rule: reachable.induct) auto
  qed
qed (auto intro: reachable.root)

text \<open>
  C1 fails in the reallocating variant. After \<open>churn_more\<close> five integer cells are on
  the stack and nothing else is reachable, yet after \<open>gc(vm, 0)\<close> the VM reports six
  live cells: the collection triggered by the eighth push left a stale mark behind.
\<close>

theorem liveCount_not_reachable_count_r:
  "\<exists>vm vm'. run_r inplace (newVMr 4096 junk0) churn_more = Inr vm
     \<and> card (reachable (heap vm) (mem vm) (stack vm)) = 5
     \<and> gc_r vm 0 (inplace vm) = Inr vm'
     \<and> liveCount vm' = 6"
proof -
  have "case run_r inplace (newVMr 4096 junk0) churn_more of Inl e \<Rightarrow> False
    | Inr vm \<Rightarrow> stack vm = [4096, 4128, 4160, 4192, 4224]
        \<and> (\<forall>r \<in> set (stack vm). otype (mem vm (cell_index (heap vm) r)) = OBJ_INT)
        \<and> (case gc_r vm 0 (inplace vm) of Inl e \<Rightarrow> False | Inr vm' \<Rightarrow> liveCount vm' = 6)"
    by (simp add: eval_defs)
  then obtain vm vm' where r: "run_r inplace (newVMr 4096 junk0) churn_more = Inr vm"
    and s: "stack vm = [4096, 4128, 4160, 4192, 4224]"
    and i: "\<forall>r \<in> set (stack vm). otype (mem vm (cell_index (heap vm) r)) = OBJ_INT"
    and g: "gc_r vm 0 (inplace vm) = Inr vm'" and l: "liveCount vm' = 6"
    by (auto split: sum.splits)
  have "card (reachable (heap vm) (mem vm) (stack vm)) = 5"
    using reachable_ints[OF i] s by simp
  with r g l show ?thesis by blast
qed

text \<open>
  C2 fails in the reallocating variant, on \<open>test4\<close> of its own source. Before the
  collection the pair \<open>a\<close> has the pair \<open>b\<close> as its tail. After it, \<open>a\<close> has moved to
  \<open>4128\<close> and its tail is the address \<open>4192\<close> planned for \<open>b\<close>, but \<open>b\<close> was never
  copied there: the cell at \<open>4192\<close> is tagged \<open>OBJ_INT\<close>.
\<close>

theorem test4_tail_tag_not_preserved_r:
  "\<exists>vm vm'. test4_setup inplace (newVMr 4096 junk0) = Inr vm
     \<and> stack vm = [4160, 4256] \<and> heap vm = 4096
     \<and> otype (mem vm (cell_index (heap vm) 4160)) = OBJ_PAIR
     \<and> tail (mem vm (cell_index (heap vm) 4160)) = 4256
     \<and> otype (mem vm (cell_index (heap vm) 4256)) = OBJ_PAIR
     \<and> gc_r vm 0 (inplace vm) = Inr vm'
     \<and> stack vm' = [4128, 4192] \<and> heap vm' = 4096 \<and> nextp vm' = 4224
     \<and> otype (mem vm' (cell_index (heap vm') 4128)) = OBJ_PAIR
     \<and> tail (mem vm' (cell_index (heap vm') 4128)) = 4192
     \<and> otype (mem vm' (cell_index (heap vm') 4192)) = OBJ_INT"
proof -
  have "case test4_setup inplace (newVMr 4096 junk0) of Inl e \<Rightarrow> False
   | Inr vm \<Rightarrow> stack vm = [4160, 4256] \<and> heap vm = 4096
       \<and> otype (mem vm (cell_index (heap vm) 4160)) = OBJ_PAIR
       \<and> tail (mem vm (cell_index (heap vm) 4160)) = 4256
       \<and> otype (mem vm (cell_index (heap vm) 4256)) = OBJ_PAIR
       \<and> (case gc_r vm 0 (inplace vm) of Inl e \<Rightarrow> False
          | Inr vm' \<Rightarrow> stack vm' = [4128, 4192] \<and> heap vm' = 4096 \<and> nextp vm' = 4224
              \<and> otype (mem vm' (cell_index (heap vm') 4128)) = OBJ_PAIR
              \<and> tail (mem vm' (cell_index (heap vm') 4128)) = 4192
              \<and> otype (mem vm' (cell_index (heap vm') 4192)) = OBJ_INT)"
    by (simp add: eval_defs)
  then show ?thesis by (auto split: sum.splits)
qed

text \<open>
  C3 fails in the reallocating variant. After \<open>churn\<close> and \<open>gc(vm, 0)\<close> the cell at
  \<open>4256\<close> is on the stack and below the frontier, and its forwarding slot is not
  \<open>NULL\<close>.
\<close>

theorem moveTo_not_cleared_r:
  "\<exists>vm'. run_r inplace (newVMr 4096 junk0) (churn @ [Gc 0]) = Inr vm'
     \<and> heap vm' = 4096 \<and> nextp vm' = 4288 \<and> 4256 \<in> set (stack vm')
     \<and> valid_ref (heap vm') (cap vm') 4256
     \<and> moveTo (mem vm' (cell_index (heap vm') 4256)) \<noteq> 0"
proof -
  have "case run_r inplace (newVMr 4096 junk0) (churn @ [Gc 0]) of Inl e \<Rightarrow> False
    | Inr vm' \<Rightarrow> heap vm' = 4096 \<and> nextp vm' = 4288 \<and> 4256 \<in> set (stack vm')
     \<and> valid_ref (heap vm') (cap vm') 4256
     \<and> moveTo (mem vm' (cell_index (heap vm') 4256)) \<noteq> 0"
    by (simp add: eval_defs)
  then show ?thesis by (auto split: sum.splits)
qed

text \<open>
  C6 fails in the reallocating variant, again on \<open>test4\<close>. The first collection leaves
  four live cells, with the second root at \<open>4192\<close>; a second collection right after it
  leaves three, and moves that root's cell to \<open>4160\<close> in the same heap.
\<close>

theorem second_gc_not_noop_r:
  "\<exists>vm vm1 vm2. test4_setup inplace (newVMr 4096 junk0) = Inr vm
     \<and> gc_r vm 0 (inplace vm) = Inr vm1
     \<and> liveCount vm1 = 4 \<and> heap vm1 = 4096 \<and> stack vm1 = [4128, 4192]
     \<and> gc_r vm1 0 (inplace vm1) = Inr vm2
     \<and> liveCount vm2 = 3 \<and> heap vm2 = 4096 \<and> stack vm2 = [4128, 4160]"
proof -
  have "case test4_setup inplace (newVMr 4096 junk0) of Inl e \<Rightarrow> False
   | Inr vm \<Rightarrow>
      (case gc_r vm 0 (inplace vm) of Inl e \<Rightarrow> False
       | Inr vm1 \<Rightarrow> liveCount vm1 = 4 \<and> heap vm1 = 4096 \<and> stack vm1 = [4128, 4192]
           \<and> (case gc_r vm1 0 (inplace vm1) of Inl e \<Rightarrow> False
              | Inr vm2 \<Rightarrow> liveCount vm2 = 3 \<and> heap vm2 = 4096 \<and> stack vm2 = [4128, 4160]))"
    by (simp add: eval_defs)
  then show ?thesis by (auto split: sum.splits)
qed

section \<open>The root stack\<close>

lemma pop_r_empty: "stack vm = [] \<Longrightarrow> pop_r vm = Inl StackUnderflow"
  by (simp add: pop_r_def)

lemma pop_r_nonempty:
  "stack vm = rs @ [r] \<Longrightarrow> pop_r vm = Inr (vm\<lparr>stack := rs\<rparr>, r)"
  by (simp add: pop_r_def)

lemma pop_nonempty:
  "stack vm = rs @ [r] \<Longrightarrow> pop vm = Inr (vm\<lparr>stack := rs\<rparr>, r)"
  by (simp add: pop_def)

lemma push_then_pop_r:
  "push_r vm r = Inr vm1 \<Longrightarrow> pop_r vm1 = Inr (vm1\<lparr>stack := stack vm\<rparr>, r)"
  by (auto simp: push_r_def pop_r_def split: if_splits)

lemma push_then_pop:
  "push vm r = Inr vm1 \<Longrightarrow> pop vm1 = Inr (vm1\<lparr>stack := stack vm\<rparr>, r)"
  by (auto simp: push_def pop_def split: if_splits)

text \<open>
  C9. \<open>pop\<close> on an empty root stack is claimed to fail with \<open>StackUnderflow\<close> in both
  variants. The reallocating variant does (\<open>pop_r_empty\<close>); the fixed-heap variant has no
  check, and on the empty stack of a fresh VM it reads \<open>stack[-1]\<close> instead of failing
  with \<open>StackUnderflow\<close>.
\<close>

theorem pop_empty_fixed_no_underflow:
  "pop (newVM base junk) = Inl UndefinedBehaviour \<and> pop (newVM base junk) \<noteq> Inl StackUnderflow"
  by (simp add: pop_def newVM_def)

end
